theory Spec2Isabelle
  imports Main "HOL-Library.AList" "HOL-Library.Multiset" "HOL-Library.Word"
begin

section \<open>Values read from the JSON files\<close>

text \<open>
  \<^verbatim>\<open>build_vocab_deck.js\<close> reads two JSON files, the class plan and the chunk library,
  and works on the values \<^verbatim>\<open>JSON.parse\<close> returns. A parsed value is a \<open>json\<close>; an
  object is the list of its properties in insertion order (keys are distinct after
  parsing). Numbers are integers here. A string of the language is the list of its
  UTF-16 code units; \<open>utf16\<close> writes one from a literal (exact for ASCII text). The
  names of properties are kept as plain strings: the program reads the eight names
  below and carries every other property along untouched.
\<close>

type_synonym code_unit = "16 word"

type_synonym jstring = "code_unit list"

definition utf16 :: "string \<Rightarrow> jstring" where
  "utf16 s = map of_char s"

datatype json =
    JNull
  | JBool bool
  | JNum int
  | JStr jstring
  | JArr "json list"
  | JObj "(string \<times> json) list"

text \<open>\<^verbatim>\<open>Boolean(v)\<close>, also the test of \<^verbatim>\<open>if (v)\<close>, \<^verbatim>\<open>!v\<close> and \<^verbatim>\<open>a && b\<close>.\<close>

fun truthy :: "json \<Rightarrow> bool" where
  "truthy JNull = False"
| "truthy (JBool b) = b"
| "truthy (JNum n) = (n \<noteq> 0)"
| "truthy (JStr s) = (s \<noteq> [])"
| "truthy (JArr xs) = True"
| "truthy (JObj kvs) = True"

text \<open>
  \<^verbatim>\<open>o.k\<close> on a parsed value: the property of an object, \<open>None\<close> for \<^verbatim>\<open>undefined\<close>.
  None of the keys the program reads (\<^verbatim>\<open>class\<close>, \<^verbatim>\<open>chunk\<close>, \<^verbatim>\<open>id\<close>, \<^verbatim>\<open>variants\<close>,
  \<^verbatim>\<open>meaning\<close>, \<^verbatim>\<open>obs\<close>) is inherited by a string, number, boolean or array, so there
  the read is \<^verbatim>\<open>undefined\<close>; \<^verbatim>\<open>entries\<close> of an array is a method, which is not an array
  either. Reading a property of \<^verbatim>\<open>null\<close> throws; the callers test for \<open>JNull\<close> first.
\<close>

fun field :: "json \<Rightarrow> string \<Rightarrow> json option" where
  "field (JObj kvs) k = map_of kvs k"
| "field _ k = None"

text \<open>\<^verbatim>\<open>o.k = v\<close>: an existing key keeps its place, a new key goes last.\<close>

fun set_prop :: "string \<Rightarrow> json \<Rightarrow> json \<Rightarrow> json" where
  "set_prop k v (JObj kvs) = JObj (AList.update k v kvs)"
| "set_prop k v j = j"

definition truthy_o :: "json option \<Rightarrow> bool" where
  "truthy_o v = (case v of None \<Rightarrow> False | Some j \<Rightarrow> truthy j)"

text \<open>\<^verbatim>\<open>typeof v === "string"\<close>, \<^verbatim>\<open>Array.isArray(v)\<close>, \<^verbatim>\<open>v == null\<close>.\<close>

definition is_string :: "json option \<Rightarrow> bool" where
  "is_string v = (case v of Some (JStr s) \<Rightarrow> True | _ \<Rightarrow> False)"

definition isArray :: "json option \<Rightarrow> bool" where
  "isArray v = (case v of Some (JArr xs) \<Rightarrow> True | _ \<Rightarrow> False)"

definition nullish :: "json option \<Rightarrow> bool" where
  "nullish v = (case v of None \<Rightarrow> True | Some JNull \<Rightarrow> True | _ \<Rightarrow> False)"

text \<open>
  \<^verbatim>\<open>typeof v === "object"\<close> for a value that is there: objects, arrays and \<^verbatim>\<open>null\<close>.
\<close>

fun typeof_object :: "json \<Rightarrow> bool" where
  "typeof_object JNull = True"
| "typeof_object (JArr xs) = True"
| "typeof_object (JObj kvs) = True"
| "typeof_object _ = False"

text \<open>
  The fields of an entry, read at the types validation has checked: \<^verbatim>\<open>chunk\<close> and
  \<^verbatim>\<open>id\<close> are strings, \<^verbatim>\<open>variants\<close> is an array. (\<^verbatim>\<open>union\<close> reads a missing
  \<^verbatim>\<open>variants\<close> as \<^verbatim>\<open>[]\<close>, its default parameter.)
\<close>

definition str_of :: "json option \<Rightarrow> jstring" where
  "str_of v = (case v of Some (JStr s) \<Rightarrow> s | _ \<Rightarrow> [])"

definition arr_of :: "json option \<Rightarrow> json list" where
  "arr_of v = (case v of Some (JArr xs) \<Rightarrow> xs | _ \<Rightarrow> [])"

definition chunk_of :: "json \<Rightarrow> jstring" where
  "chunk_of e = str_of (field e ''chunk'')"

definition id_of :: "json \<Rightarrow> jstring" where
  "id_of e = str_of (field e ''id'')"

definition variants_of :: "json \<Rightarrow> json list" where
  "variants_of e = arr_of (field e ''variants'')"

subsection \<open>Strings\<close>

text \<open>
  \<^verbatim>\<open>String.prototype.trim\<close> strips the white space and the line terminators of the
  language from both ends, and the regular expression class \<^verbatim>\<open>\s\<close> is the same set:
  TAB, LF, VT, FF, CR, SPACE, U+00A0, U+FEFF, the other space separators (category Zs:
  U+1680, U+2000 to U+200A, U+202F, U+205F, U+3000) and U+2028, U+2029. Each is one
  code unit.
\<close>

definition is_ws :: "code_unit \<Rightarrow> bool" where
  "is_ws c =
     (c = 0x0009 \<or> c = 0x000A \<or> c = 0x000B \<or> c = 0x000C \<or> c = 0x000D \<or> c = 0x0020
      \<or> c = 0x00A0 \<or> c = 0x1680 \<or> (0x2000 \<le> c \<and> c \<le> 0x200A)
      \<or> c = 0x2028 \<or> c = 0x2029 \<or> c = 0x202F \<or> c = 0x205F \<or> c = 0x3000 \<or> c = 0xFEFF)"

definition trim :: "jstring \<Rightarrow> jstring" where
  "trim s = rev (dropWhile is_ws (rev (dropWhile is_ws s)))"

text \<open>\<^verbatim>\<open>s.replace(/\s+/g, "_")\<close>: every maximal run of white space becomes one underscore.\<close>

fun replace_ws_from :: "bool \<Rightarrow> jstring \<Rightarrow> jstring" where
  "replace_ws_from in_run [] = []"
| "replace_ws_from in_run (c # cs) =
     (if is_ws c then (if in_run then replace_ws_from True cs
                       else of_char CHR ''_'' # replace_ws_from True cs)
      else c # replace_ws_from False cs)"

definition replace_ws :: "jstring \<Rightarrow> jstring" where
  "replace_ws s = replace_ws_from False s"

section \<open>Union of variants\<close>

text \<open>
  \<^verbatim>\<open>
  function union(arrA = [], arrB = []) {
    const s = new Set([...arrA, ...arrB].filter(Boolean));
    return Array.from(s);
  }
  \<close>
  A \<^verbatim>\<open>Set\<close> keeps its elements in insertion order and \<^verbatim>\<open>add\<close> ignores an element
  that is already there. Membership is SameValueZero: null, booleans, numbers and
  strings are the same element when they are the same value, an array or an object is
  the same element only as the same reference. An \<open>element\<close> is a value as the set sees
  it: a primitive value, or the reference of an array or object (which is truthy
  whatever it holds). Equality of elements is SameValueZero.
\<close>

datatype element =
    ENull
  | EBool bool
  | ENum int
  | EStr jstring
  | ERef nat

fun truthy_element :: "element \<Rightarrow> bool" where
  "truthy_element ENull = False"
| "truthy_element (EBool b) = b"
| "truthy_element (ENum n) = (n \<noteq> 0)"
| "truthy_element (EStr s) = (s \<noteq> [])"
| "truthy_element (ERef r) = True"

definition Set_add :: "element list \<Rightarrow> element \<Rightarrow> element list" where
  "Set_add s x = (if x \<in> set s then s else s @ [x])"

definition new_Set :: "element list \<Rightarrow> element list" where
  "new_Set xs = foldl Set_add [] xs"

definition union_elements :: "element list \<Rightarrow> element list \<Rightarrow> element list" where
  "union_elements arrA arrB = new_Set (filter truthy_element (arrA @ arrB))"

text \<open>
  The program calls \<^verbatim>\<open>union\<close> on the variants of a library entry and of a class entry.
  The two arrays come from \<^verbatim>\<open>JSON.parse\<close> of the two files (a library entry is merged
  at most once in a run, since the chunks of a class document are distinct), so every
  array or object among their elements is a reference of its own: here the position of
  the element in \<^verbatim>\<open>[...arrA, ...arrB]\<close>. \<open>union_variants\<close> is \<^verbatim>\<open>union\<close> on two such arrays.
\<close>

fun element_at :: "nat \<Rightarrow> json \<Rightarrow> element" where
  "element_at i JNull = ENull"
| "element_at i (JBool b) = EBool b"
| "element_at i (JNum n) = ENum n"
| "element_at i (JStr s) = EStr s"
| "element_at i (JArr xs) = ERef i"
| "element_at i (JObj kvs) = ERef i"

fun elements_from :: "nat \<Rightarrow> json list \<Rightarrow> element list" where
  "elements_from i [] = []"
| "elements_from i (x # xs) = element_at i x # elements_from (Suc i) xs"

fun value_of :: "json list \<Rightarrow> element \<Rightarrow> json" where
  "value_of xs ENull = JNull"
| "value_of xs (EBool b) = JBool b"
| "value_of xs (ENum n) = JNum n"
| "value_of xs (EStr s) = JStr s"
| "value_of xs (ERef i) = xs ! i"

definition union_variants :: "json list \<Rightarrow> json list \<Rightarrow> json list" where
  "union_variants arrA arrB =
     map (value_of (arrA @ arrB))
       (union_elements (elements_from 0 arrA) (elements_from (length arrA) arrB))"

section \<open>Validation\<close>

datatype error =
    LoadError
  | TypeError
  | ClassNotObject
  | MissingClass
  | MissingEntries
  | ChunkInvalid nat
  | IdNotString nat
  | VariantsNotArray nat
  | ObsNotString nat
  | MeaningNotString nat
  | DuplicateChunk jstring
  | LibChunkInvalid nat
  | LibIdNotString nat
  | LibVariantsNotArray nat
  | LibDuplicateChunk jstring
  | IdConflict jstring jstring jstring
  | ApiError

text \<open>
  \<^verbatim>\<open>validateClassDoc\<close> throws on the first defect. Its loop over \<^verbatim>\<open>doc.entries\<close> carries
  the index and the set \<^verbatim>\<open>seen\<close> of trimmed chunks; an entry that is \<^verbatim>\<open>null\<close> makes the
  read of \<^verbatim>\<open>e.chunk\<close> throw a TypeError.
\<close>

fun validateClassEntries :: "nat \<Rightarrow> jstring list \<Rightarrow> json list \<Rightarrow> error + unit" where
  "validateClassEntries i seen [] = Inr ()"
| "validateClassEntries i seen (e # es) =
     (if e = JNull then Inl TypeError
      else if \<not> truthy_o (field e ''chunk'') \<or> \<not> is_string (field e ''chunk'')
        then Inl (ChunkInvalid i)
      else if \<not> is_string (field e ''id'') then Inl (IdNotString i)
      else if \<not> isArray (field e ''variants'') then Inl (VariantsNotArray i)
      else if \<not> nullish (field e ''obs'') \<and> \<not> is_string (field e ''obs'')
        then Inl (ObsNotString i)
      else if \<not> nullish (field e ''meaning'') \<and> \<not> is_string (field e ''meaning'')
        then Inl (MeaningNotString i)
      else let key = trim (chunk_of e) in
        if key \<in> set seen then Inl (DuplicateChunk key)
        else validateClassEntries (Suc i) (key # seen) es)"

definition validateClassDoc :: "json \<Rightarrow> error + unit" where
  "validateClassDoc doc =
     (if \<not> truthy doc \<or> \<not> typeof_object doc then Inl ClassNotObject
      else if \<not> truthy_o (field doc ''class'') \<or> \<not> is_string (field doc ''class'')
        then Inl MissingClass
      else if \<not> isArray (field doc ''entries'') then Inl MissingEntries
      else validateClassEntries 0 [] (arr_of (field doc ''entries'')))"

definition emptyLibrary :: json where
  "emptyLibrary = JObj [(''version'', JNum 1), (''entries'', JArr [])]"

fun validateLibraryEntries :: "nat \<Rightarrow> jstring list \<Rightarrow> json list \<Rightarrow> error + unit" where
  "validateLibraryEntries i seen [] = Inr ()"
| "validateLibraryEntries i seen (e # es) =
     (if e = JNull then Inl TypeError
      else if \<not> truthy_o (field e ''chunk'') \<or> \<not> is_string (field e ''chunk'')
        then Inl (LibChunkInvalid i)
      else if \<not> is_string (field e ''id'') then Inl (LibIdNotString i)
      else if \<not> isArray (field e ''variants'') then Inl (LibVariantsNotArray i)
      else let key = trim (chunk_of e) in
        if key \<in> set seen then Inl (LibDuplicateChunk key)
        else validateLibraryEntries (Suc i) (key # seen) es)"

text \<open>
  \<^verbatim>\<open>validateLibrary\<close> returns the empty library for a value that is not an object with
  an \<^verbatim>\<open>entries\<close> array, throws on a defective entry, and returns the library itself
  otherwise.
\<close>

definition validateLibrary :: "json \<Rightarrow> error + json" where
  "validateLibrary lib =
     (if \<not> truthy lib \<or> \<not> typeof_object lib then Inr emptyLibrary
      else if \<not> isArray (field lib ''entries'') then Inr emptyLibrary
      else (case validateLibraryEntries 0 [] (arr_of (field lib ''entries'')) of
              Inl err \<Rightarrow> Inl err
            | Inr u \<Rightarrow> Inr lib))"

text \<open>
  A file holds a JSON text or is missing or unreadable: \<open>None\<close> is every case in which
  \<^verbatim>\<open>loadJson\<close> throws (\<^verbatim>\<open>readFile\<close> or \<^verbatim>\<open>JSON.parse\<close> fails).
  \<^verbatim>\<open>
  let lib;
  try { lib = validateLibrary(await loadJson(libPath)); } catch { lib = emptyLibrary(); }
  \<close>
\<close>

definition loadJson :: "json option \<Rightarrow> error + json" where
  "loadJson file = (case file of None \<Rightarrow> Inl LoadError | Some raw \<Rightarrow> Inr raw)"

definition loadLibrary :: "json option \<Rightarrow> json" where
  "loadLibrary file =
     (case loadJson file of
        Inl err \<Rightarrow> emptyLibrary
      | Inr raw \<Rightarrow> (case validateLibrary raw of Inl err \<Rightarrow> emptyLibrary | Inr lib \<Rightarrow> lib))"

text \<open>
  \<^verbatim>\<open>indexByChunk\<close> builds a \<^verbatim>\<open>Map\<close> from the raw chunk to the entry object. The map
  holds references into \<^verbatim>\<open>lib.entries\<close>, so a write through \<^verbatim>\<open>inLib\<close> is a write to
  the entry of the library: the model keeps the position of the entry in the array.
\<close>

fun indexByChunk_from :: "nat \<Rightarrow> json list \<Rightarrow> (jstring \<times> nat) list \<Rightarrow> (jstring \<times> nat) list" where
  "indexByChunk_from i [] m = m"
| "indexByChunk_from i (e # es) m = indexByChunk_from (Suc i) es (AList.update (chunk_of e) i m)"

definition indexByChunk :: "json list \<Rightarrow> (jstring \<times> nat) list" where
  "indexByChunk entries = indexByChunk_from 0 entries []"

section \<open>The external service and the files\<close>

record config =
  VOCAB_TEMPLATE_ID :: jstring
  VOCAB_FIELD_TERM_ID :: jstring
  VOCAB_FIELD_MEANING_ID :: jstring
  VOCAB_FIELD_OBS_ID :: jstring
  MASTER_VOCAB_DECK_ID :: jstring
  DRY_RUN :: bool

record deck =
  deck_id :: jstring
  deck_name :: jstring

record card_body =
  content :: jstring
  body_deck_id :: jstring
  template_id :: jstring
  body_fields :: "(jstring \<times> jstring) list"

datatype call =
    GET_decks
  | POST_decks jstring "jstring option"
  | POST_cards card_body

text \<open>
  What lies outside the script: the comparison \<^verbatim>\<open>localeCompare(b, "en")\<close> of the
  platform, and the answers of the Mochi API. An answer may depend on every request
  made before; \<open>None\<close> is a request that fails (\<^verbatim>\<open>fetch\<close> rejects or the status is not
  OK), on which \<^verbatim>\<open>mochi\<close> throws. \<open>decks_response\<close> is \<^verbatim>\<open>data.docs || []\<close> of
  \<^verbatim>\<open>GET /decks\<close>, \<open>new_card_response\<close> the \<^verbatim>\<open>id\<close> of the card \<^verbatim>\<open>POST /cards\<close> returns.
\<close>

record host =
  localeCompare :: "jstring \<Rightarrow> jstring \<Rightarrow> int"
  decks_response :: "call list \<Rightarrow> deck list option"
  new_deck_response :: "call list \<Rightarrow> jstring \<Rightarrow> jstring option \<Rightarrow> deck option"
  new_card_response :: "call list \<Rightarrow> card_body \<Rightarrow> jstring option"

text \<open>
  The durable world: the two files and the requests sent so far. The state of a run
  adds what \<^verbatim>\<open>main\<close> holds in memory; \<open>classEntries\<close> and \<open>libEntries\<close> are the arrays
  \<^verbatim>\<open>classDoc.entries\<close> and \<^verbatim>\<open>lib.entries\<close>, which the loop changes in place, while
  \<open>classDoc\<close> and \<open>lib\<close> keep the other properties of the two objects. Saving a document
  writes the object with the current array (\<open>with_entries\<close>).
\<close>

record world =
  class_file :: "json option"
  lib_file :: "json option"
  calls :: "call list"

record state = world +
  classDoc :: json
  classEntries :: "json list"
  lib :: json
  libEntries :: "json list"
  libMap :: "(jstring \<times> nat) list"
  skippedExisting :: "jstring list"
  created :: nat

definition world_of :: "state \<Rightarrow> world" where
  "world_of st = \<lparr>class_file = class_file st, lib_file = lib_file st, calls = calls st\<rparr>"

definition with_entries :: "json \<Rightarrow> json list \<Rightarrow> json" where
  "with_entries doc es = set_prop ''entries'' (JArr es) doc"

text \<open>
  \<^verbatim>\<open>await saveJsonAtomic(classPath, classDoc); await saveJsonAtomic(libPath, lib);\<close>
  (the writes are taken to succeed).
\<close>

definition persist :: "state \<Rightarrow> state" where
  "persist st =
     st\<lparr>class_file := Some (with_entries (classDoc st) (classEntries st)),
        lib_file := Some (with_entries (lib st) (libEntries st))\<rparr>"

definition findDeckByName :: "host \<Rightarrow> jstring \<Rightarrow> call list \<Rightarrow> (error + deck option) \<times> call list" where
  "findDeckByName h name cs =
     (case decks_response h cs of
        None \<Rightarrow> (Inl ApiError, cs @ [GET_decks])
      | Some decks \<Rightarrow> (Inr (find (\<lambda>d. deck_name d = name) decks), cs @ [GET_decks]))"

definition createDeck :: "config \<Rightarrow> host \<Rightarrow> jstring \<Rightarrow> jstring \<Rightarrow> call list \<Rightarrow> (error + deck) \<times> call list" where
  "createDeck cfg h name parentId cs =
     (if DRY_RUN cfg then (Inr \<lparr>deck_id = utf16 ''DRY_DECK_'' @ name, deck_name = name\<rparr>, cs)
      else let parent = (if parentId \<noteq> [] then Some parentId else None) in
        (case new_deck_response h cs name parent of
           None \<Rightarrow> (Inl ApiError, cs @ [POST_decks name parent])
         | Some d \<Rightarrow> (Inr d, cs @ [POST_decks name parent])))"

definition card_fields :: "config \<Rightarrow> json \<Rightarrow> (jstring \<times> jstring) list" where
  "card_fields cfg entry =
     (let fields0 =
            AList.update (VOCAB_FIELD_MEANING_ID cfg) (str_of (field entry ''meaning''))
              (AList.update (VOCAB_FIELD_TERM_ID cfg) (chunk_of entry) [])
      in if VOCAB_FIELD_OBS_ID cfg \<noteq> [] \<and> truthy_o (field entry ''obs'')
            \<and> trim (str_of (field entry ''obs'')) \<noteq> []
         then AList.update (VOCAB_FIELD_OBS_ID cfg) (trim (str_of (field entry ''obs''))) fields0
         else fields0)"

definition createVocabCard :: "config \<Rightarrow> host \<Rightarrow> jstring \<Rightarrow> json \<Rightarrow> call list \<Rightarrow> (error + jstring) \<times> call list" where
  "createVocabCard cfg h deckId entry cs =
     (let body = \<lparr>content = [], body_deck_id = deckId,
                   template_id = VOCAB_TEMPLATE_ID cfg, body_fields = card_fields cfg entry\<rparr>
      in if DRY_RUN cfg then (Inr (utf16 ''DRY_CARD_'' @ replace_ws (chunk_of entry)), cs)
         else (case new_card_response h cs body of
                 None \<Rightarrow> (Inl ApiError, cs @ [POST_cards body])
               | Some card_id \<Rightarrow> (Inr card_id, cs @ [POST_cards body])))"

section \<open>The reconciliation loop\<close>

text \<open>
  \<^verbatim>\<open>libMap.get(entry.chunk)\<close>: the entry object of the library, with its position. Every
  position in \<open>libMap\<close> is a position of \<open>libEntries\<close> (lemma \<open>libMap_ok_step\<close>).
\<close>

definition inLib_of :: "state \<Rightarrow> json \<Rightarrow> (nat \<times> json) option" where
  "inLib_of st entry =
     (case map_of (libMap st) (chunk_of entry) of
        None \<Rightarrow> None
      | Some i \<Rightarrow> Some (i, libEntries st ! i))"

text \<open>
  \<^verbatim>\<open>inLib && inLib.id && entry.id && entry.id.trim() && entry.id !== inLib.id\<close>
\<close>

definition id_conflict :: "(nat \<times> json) option \<Rightarrow> json \<Rightarrow> bool" where
  "id_conflict inLib entry =
     (case inLib of
        None \<Rightarrow> False
      | Some (i, l) \<Rightarrow> id_of l \<noteq> [] \<and> id_of entry \<noteq> [] \<and> trim (id_of entry) \<noteq> []
                       \<and> id_of entry \<noteq> id_of l)"

text \<open>\<^verbatim>\<open>inLib && inLib.id && inLib.id.trim()\<close>\<close>

definition has_id :: "(nat \<times> json) option \<Rightarrow> bool" where
  "has_id inLib =
     (case inLib of None \<Rightarrow> False | Some (i, l) \<Rightarrow> id_of l \<noteq> [] \<and> trim (id_of l) \<noteq> [])"

text \<open>\<^verbatim>\<open>if (entry.meaning != null) libEntry.meaning = entry.meaning;\<close> and the same for \<^verbatim>\<open>obs\<close>.\<close>

definition refresh :: "string \<Rightarrow> json \<Rightarrow> json \<Rightarrow> json" where
  "refresh k entry libEntry =
     (case field entry k of
        None \<Rightarrow> libEntry
      | Some JNull \<Rightarrow> libEntry
      | Some v \<Rightarrow> set_prop k v libEntry)"

definition new_libEntry :: "json \<Rightarrow> json" where
  "new_libEntry entry =
     JObj [(''chunk'', JStr (chunk_of entry)), (''id'', JStr []), (''variants'', JArr [])]"

definition fill_libEntry :: "jstring \<Rightarrow> json \<Rightarrow> json \<Rightarrow> json" where
  "fill_libEntry card_id entry libEntry =
     refresh ''obs'' entry
       (refresh ''meaning'' entry
          (set_prop ''variants'' (JArr (union_variants (variants_of libEntry) (variants_of entry)))
             (set_prop ''id'' (JStr card_id) libEntry)))"

text \<open>
  One iteration of \<^verbatim>\<open>for (const entry of classDoc.entries)\<close>, for the entry at
  position \<open>k\<close>. An error carries the durable world the process leaves behind. (Both
  tests on \<open>inLib\<close> are false when there is no entry, so the two \<open>None\<close> cases under them
  are never taken.)
\<close>

definition step :: "config \<Rightarrow> host \<Rightarrow> jstring \<Rightarrow> nat \<Rightarrow> json \<Rightarrow> state \<Rightarrow> (error \<times> world) + state" where
  "step cfg h deckId k entry st =
     (let inLib = inLib_of st entry in
      if id_conflict inLib entry
      then (case inLib of
              None \<Rightarrow> Inr st
            | Some (i, l) \<Rightarrow>
                Inl (IdConflict (chunk_of entry) (id_of entry) (id_of l), world_of st))
      else if has_id inLib
      then (case inLib of
              None \<Rightarrow> Inr st
            | Some (i, l) \<Rightarrow>
                Inr (st\<lparr>classEntries := (classEntries st)[k := set_prop ''id'' (JStr (id_of l)) entry],
                        libEntries := (libEntries st)
                          [i := set_prop ''variants''
                                  (JArr (union_variants (variants_of l) (variants_of entry))) l],
                        skippedExisting := skippedExisting st @ [chunk_of entry]\<rparr>))
      else (case createVocabCard cfg h deckId entry (calls st) of
              (Inl err, cs) \<Rightarrow> Inl (err, world_of (st\<lparr>calls := cs\<rparr>))
            | (Inr card_id, cs) \<Rightarrow>
                let st1 = st\<lparr>calls := cs,
                            classEntries := (classEntries st)[k := set_prop ''id'' (JStr card_id) entry]\<rparr>;
                    st2 = (case inLib of
                             Some (i, l) \<Rightarrow>
                               st1\<lparr>libEntries := (libEntries st1)[i := fill_libEntry card_id entry l]\<rparr>
                           | None \<Rightarrow>
                               st1\<lparr>libEntries := libEntries st1 @ [fill_libEntry card_id entry (new_libEntry entry)],
                                   libMap := AList.update (chunk_of entry) (length (libEntries st1)) (libMap st1)\<rparr>);
                    st3 = st2\<lparr>created := Suc (created st2)\<rparr>
                in Inr (if DRY_RUN cfg then st3 else persist st3)))"

fun loop :: "config \<Rightarrow> host \<Rightarrow> jstring \<Rightarrow> nat \<Rightarrow> json list \<Rightarrow> state \<Rightarrow> (error \<times> world) + state" where
  "loop cfg h deckId k [] st = Inr st"
| "loop cfg h deckId k (entry # rest) st =
     (case step cfg h deckId k entry st of
        Inl err \<Rightarrow> Inl err
      | Inr st' \<Rightarrow> loop cfg h deckId (Suc k) rest st')"

text \<open>
  \<^verbatim>\<open>lib.entries.sort((a, b) => a.chunk.localeCompare(b.chunk, "en"))\<close>. The sort of
  an array is stable; with a comparison that is a consistent order it is the stable
  insertion sort below (with any other comparison the order is left to the engine).
\<close>

fun insert_entry :: "(jstring \<Rightarrow> jstring \<Rightarrow> int) \<Rightarrow> json \<Rightarrow> json list \<Rightarrow> json list" where
  "insert_entry cmp a [] = [a]"
| "insert_entry cmp a (b # bs) =
     (if cmp (chunk_of a) (chunk_of b) \<le> 0 then a # b # bs else b # insert_entry cmp a bs)"

definition sort_entries :: "(jstring \<Rightarrow> jstring \<Rightarrow> int) \<Rightarrow> json list \<Rightarrow> json list" where
  "sort_entries cmp es = foldr (insert_entry cmp) es []"

section \<open>The program\<close>

text \<open>
  \<^verbatim>\<open>main\<close>, from the class file named on the command line: load and validate the class
  plan, load the library (or start an empty one), find or create the deck
  \<^verbatim>\<open><class>_V\<close>, run the loop, sort the library and save both files.
\<close>

definition resolve_deck :: "config \<Rightarrow> host \<Rightarrow> jstring \<Rightarrow> call list \<Rightarrow> (error + deck) \<times> call list" where
  "resolve_deck cfg h deckName cs =
     (case findDeckByName h deckName cs of
        (Inl err, cs1) \<Rightarrow> (Inl err, cs1)
      | (Inr (Some d), cs1) \<Rightarrow> (Inr d, cs1)
      | (Inr None, cs1) \<Rightarrow> createDeck cfg h deckName (MASTER_VOCAB_DECK_ID cfg) cs1)"

definition init_state :: "world \<Rightarrow> json \<Rightarrow> json \<Rightarrow> call list \<Rightarrow> state" where
  "init_state w doc l cs =
     \<lparr>class_file = class_file w, lib_file = lib_file w, calls = cs,
      classDoc = doc, classEntries = arr_of (field doc ''entries''),
      lib = l, libEntries = arr_of (field l ''entries''),
      libMap = indexByChunk (arr_of (field l ''entries'')),
      skippedExisting = [], created = 0\<rparr>"

definition finish :: "config \<Rightarrow> host \<Rightarrow> state \<Rightarrow> state" where
  "finish cfg h st =
     (let st' = st\<lparr>libEntries := sort_entries (localeCompare h) (libEntries st)\<rparr>
      in if DRY_RUN cfg then st' else persist st')"

definition main :: "config \<Rightarrow> host \<Rightarrow> world \<Rightarrow> (error \<times> world) + state" where
  "main cfg h w =
     (case loadJson (class_file w) of
        Inl err \<Rightarrow> Inl (err, w)
      | Inr doc \<Rightarrow>
         (case validateClassDoc doc of
            Inl err \<Rightarrow> Inl (err, w)
          | Inr u \<Rightarrow>
             (let l = loadLibrary (lib_file w);
                  deckName = str_of (field doc ''class'') @ utf16 ''_V''
              in case resolve_deck cfg h deckName (calls w) of
                   (Inl err, cs) \<Rightarrow> Inl (err, w\<lparr>calls := cs\<rparr>)
                 | (Inr d, cs) \<Rightarrow>
                     (let st0 = init_state w doc l cs
                      in case loop cfg h (deck_id d) 0 (classEntries st0) st0 of
                           Inl err \<Rightarrow> Inl err
                         | Inr st \<Rightarrow> Inr (finish cfg h st)))))"

section \<open>Conditions the proofs refer to\<close>

text \<open>
  Every pair of \<open>libMap\<close> names a position of \<open>libEntries\<close>, and the entry there has the
  chunk of the key. \<^verbatim>\<open>indexByChunk\<close> sets this up and every iteration keeps it.
\<close>

definition libMap_ok :: "state \<Rightarrow> bool" where
  "libMap_ok st =
     list_all (\<lambda>(c, i). i < length (libEntries st) \<and> chunk_of (libEntries st ! i) = c) (libMap st)"

text \<open>
  A comparison function is consistent when \<open>cmp a b \<le> 0\<close> is a total preorder; only
  then does the language fix what \<^verbatim>\<open>sort\<close> returns.
\<close>

definition consistent_compare :: "(jstring \<Rightarrow> jstring \<Rightarrow> int) \<Rightarrow> bool" where
  "consistent_compare cmp =
     ((\<forall>a b. cmp a b \<le> 0 \<or> cmp b a \<le> 0)
      \<and> (\<forall>a b c. cmp a b \<le> 0 \<longrightarrow> cmp b c \<le> 0 \<longrightarrow> cmp a c \<le> 0))"

text \<open>\<open>a\<close> comes before \<open>b\<close> in a library sorted ascending by chunk.\<close>

definition chunk_le :: "(jstring \<Rightarrow> jstring \<Rightarrow> int) \<Rightarrow> json \<Rightarrow> json \<Rightarrow> bool" where
  "chunk_le cmp a b = (cmp (chunk_of a) (chunk_of b) \<le> 0)"

text \<open>
  An entry that passes the checks \<^verbatim>\<open>validateClassDoc\<close> makes on each entry.
\<close>

definition entry_ok :: "json \<Rightarrow> bool" where
  "entry_ok e =
     (e \<noteq> JNull \<and> truthy_o (field e ''chunk'') \<and> is_string (field e ''chunk'')
      \<and> is_string (field e ''id'') \<and> isArray (field e ''variants'')
      \<and> (nullish (field e ''obs'') \<or> is_string (field e ''obs''))
      \<and> (nullish (field e ''meaning'') \<or> is_string (field e ''meaning'')))"

text \<open>
  After \<open>k\<close> iterations over the class entries \<open>es\<close>: the class entries still have the
  chunks of \<open>es\<close> and are well-formed, the entries not yet reached are untouched, and every
  entry already processed has a registry entry with its chunk and its id.
\<close>

definition reconciled :: "json list \<Rightarrow> nat \<Rightarrow> state \<Rightarrow> bool" where
  "reconciled es k st =
     (libMap_ok st
      \<and> length (classEntries st) = length es
      \<and> drop k (classEntries st) = drop k es
      \<and> map chunk_of (classEntries st) = map chunk_of es
      \<and> list_all entry_ok (classEntries st)
      \<and> (\<forall>j<k. \<exists>i<length (libEntries st).
             chunk_of (libEntries st ! i) = chunk_of (es ! j)
             \<and> id_of (libEntries st ! i) = id_of (classEntries st ! j)))"

section \<open>Concrete inputs\<close>

text \<open>
  A host for running the program on examples: strings are compared by their code
  units, \<^verbatim>\<open>GET /decks\<close> lists the decks created so far, and every new card gets an
  identifier that no earlier card has.
\<close>

fun compare_codes :: "jstring \<Rightarrow> jstring \<Rightarrow> int" where
  "compare_codes [] [] = 0"
| "compare_codes [] (b # bs) = - 1"
| "compare_codes (a # as) [] = 1"
| "compare_codes (a # as) (b # bs) =
     (if unat a < unat b then - 1
      else if unat b < unat a then 1
      else compare_codes as bs)"

fun created_decks :: "call list \<Rightarrow> deck list" where
  "created_decks [] = []"
| "created_decks (POST_decks name parent # cs) =
     \<lparr>deck_id = utf16 ''deck_'' @ name, deck_name = name\<rparr> # created_decks cs"
| "created_decks (c # cs) = created_decks cs"

definition demo_host :: host where
  "demo_host =
     \<lparr>localeCompare = compare_codes,
      decks_response = (\<lambda>cs. Some (created_decks cs)),
      new_deck_response =
        (\<lambda>cs name parent. Some \<lparr>deck_id = utf16 ''deck_'' @ name, deck_name = name\<rparr>),
      new_card_response =
        (\<lambda>cs body. Some (utf16 (''card'' @ replicate (length cs) CHR ''+'')))\<rparr>"

definition demo_config :: config where
  "demo_config =
     \<lparr>VOCAB_TEMPLATE_ID = utf16 ''tmpl'', VOCAB_FIELD_TERM_ID = utf16 ''term'',
      VOCAB_FIELD_MEANING_ID = utf16 ''meaning'', VOCAB_FIELD_OBS_ID = [],
      MASTER_VOCAB_DECK_ID = [], DRY_RUN = False\<rparr>"

definition dry_config :: config where
  "dry_config = demo_config\<lparr>DRY_RUN := True\<rparr>"

text \<open>A string value written as a literal, and the entry of a unit.\<close>

abbreviation jstr :: "string \<Rightarrow> json" where
  "jstr s \<equiv> JStr (utf16 s)"

definition unit_json :: "string \<Rightarrow> string \<Rightarrow> json list \<Rightarrow> json" where
  "unit_json c i vs = JObj [(''chunk'', jstr c), (''id'', jstr i), (''variants'', JArr vs)]"

definition class_json :: "json list \<Rightarrow> json" where
  "class_json es = JObj [(''class'', jstr ''001''), (''entries'', JArr es)]"

definition library_json :: "json list \<Rightarrow> json" where
  "library_json es = JObj [(''version'', JNum 1), (''entries'', JArr es)]"

text \<open>A state in the middle of a run, with the library \<open>es\<close> in memory and on disk.\<close>

definition demo_state :: "json list \<Rightarrow> json list \<Rightarrow> state" where
  "demo_state us es =
     init_state \<lparr>class_file = Some (class_json us), lib_file = Some (library_json es), calls = []\<rparr>
       (class_json us) (library_json es) [GET_decks]"

text \<open>
  A class plan of three units against a library that has \<open>casa\<close> under \<open>Y999\<close>: a new
  unit, a unit that claims another id for \<open>casa\<close>, and one more unit; \<open>after_sol\<close> is the
  state once the first unit has been processed.
\<close>

definition three_units :: "json list" where
  "three_units =
     [unit_json ''sol'' [] [jstr ''sol''], unit_json ''casa'' ''X123'' [], unit_json ''lua'' [] []]"

definition after_sol :: state where
  "after_sol =
     persist ((demo_state three_units [unit_json ''casa'' ''Y999'' []])
       \<lparr>calls := [GET_decks,
                  POST_cards \<lparr>content = [], body_deck_id = utf16 ''deck'',
                               template_id = utf16 ''tmpl'',
                               body_fields = [(utf16 ''term'', utf16 ''sol''),
                                              (utf16 ''meaning'', [])]\<rparr>],
        classEntries := [unit_json ''sol'' ''card+'' [jstr ''sol''],
                         unit_json ''casa'' ''X123'' [], unit_json ''lua'' [] []],
        libEntries := [unit_json ''casa'' ''Y999'' [], unit_json ''sol'' ''card+'' [jstr ''sol'']],
        libMap := [(utf16 ''casa'', 0), (utf16 ''sol'', 1)],
        created := 1\<rparr>)"

definition unit_with_meaning :: "string \<Rightarrow> string \<Rightarrow> json list \<Rightarrow> string \<Rightarrow> json" where
  "unit_with_meaning c i vs m =
     JObj [(''chunk'', jstr c), (''id'', jstr i), (''variants'', JArr vs), (''meaning'', jstr m)]"

text \<open>A class plan whose chunk has a trailing space, and a library with the trimmed chunk.\<close>

definition padded_chunk_world :: world where
  "padded_chunk_world =
     \<lparr>class_file = Some (class_json [unit_json ''casa '' [] [jstr ''casa'']]),
      lib_file = Some (library_json [unit_json ''casa'' ''Y999'' [jstr ''casa'']]),
      calls = []\<rparr>"

text \<open>Scenario A of the specification: one new unit, no library file yet.\<close>

definition scenario_A :: world where
  "scenario_A =
     \<lparr>class_file = Some (class_json [unit_json ''casa'' [] [jstr ''casa'']]),
      lib_file = None, calls = []\<rparr>"

section \<open>Properties of the union\<close>

lemma Set_add_mem: "x \<in> set s \<Longrightarrow> Set_add s x = s"
  by (simp add: Set_add_def)

lemma Set_add_new: "x \<notin> set s \<Longrightarrow> Set_add s x = s @ [x]"
  by (simp add: Set_add_def)

lemma foldl_Set_add:
  "foldl Set_add acc xs = acc @ rev (remdups (rev (filter (\<lambda>x. x \<notin> set acc) xs)))"
proof (induction xs arbitrary: acc)
  case Nil
  show ?case by simp
next
  case (Cons x xs)
  show ?case
  proof (cases "x \<in> set acc")
    case True
    then show ?thesis by (simp add: Set_add_mem Cons.IH)
  next
    case False
    have f: "filter (\<lambda>y. y \<notin> set (acc @ [x])) xs
             = filter (\<lambda>y. y \<noteq> x) (filter (\<lambda>y. y \<notin> set acc) xs)"
      by (induction xs) auto
    have r: "remdups (zs @ [x]) = remdups (filter (\<lambda>y. y \<noteq> x) zs) @ [x]"
      for zs :: "element list"
      by (induction zs) auto
    from False show ?thesis
      by (simp add: Set_add_new Cons.IH f r rev_filter conj_commute)
  qed
qed

lemma new_Set_eq: "new_Set xs = rev (remdups (rev xs))"
  by (simp add: new_Set_def foldl_Set_add)


lemma distinct_new_Set [simp]: "distinct (new_Set xs)"
  by (simp add: new_Set_eq)











section \<open>Reading and writing the fields of an entry\<close>

lemma trim_Nil [simp]: "trim [] = []"
  by (simp add: trim_def)

lemma trim_nonempty: "trim s \<noteq> [] \<Longrightarrow> s \<noteq> []"
  by auto

lemma field_set_prop_other: "k' \<noteq> k \<Longrightarrow> field (set_prop k v j) k' = field j k'"
  by (cases j) (simp_all add: update_conv')

lemma field_set_prop_same: "field (set_prop k v (JObj kvs)) k = Some v"
  by (simp add: update_conv')

lemma str_of_nonempty: "str_of v \<noteq> [] \<Longrightarrow> \<exists>s. v = Some (JStr s)"
  by (auto simp: str_of_def split: option.splits json.splits)

lemma field_Some_obj: "field j k = Some v \<Longrightarrow> \<exists>kvs. j = JObj kvs"
  by (cases j) simp_all

lemma chunk_of_obj: "chunk_of e \<noteq> [] \<Longrightarrow> \<exists>kvs. e = JObj kvs"
  unfolding chunk_of_def by (metis str_of_nonempty field_Some_obj)

lemma id_of_obj: "id_of e \<noteq> [] \<Longrightarrow> \<exists>kvs. e = JObj kvs"
  unfolding id_of_def by (metis str_of_nonempty field_Some_obj)

lemma chunk_of_set_prop: "k \<noteq> ''chunk'' \<Longrightarrow> chunk_of (set_prop k v e) = chunk_of e"
  by (simp add: chunk_of_def field_set_prop_other)

lemma id_of_set_prop: "k \<noteq> ''id'' \<Longrightarrow> id_of (set_prop k v e) = id_of e"
  by (simp add: id_of_def field_set_prop_other)

lemma variants_of_set_prop: "k \<noteq> ''variants'' \<Longrightarrow> variants_of (set_prop k v e) = variants_of e"
  by (simp add: variants_of_def field_set_prop_other)

lemma id_of_set_id: "id_of (set_prop ''id'' (JStr s) (JObj kvs)) = s"
  by (simp add: id_of_def update_conv' str_of_def)

lemma variants_of_set_variants: "variants_of (set_prop ''variants'' (JArr vs) (JObj kvs)) = vs"
  by (simp add: variants_of_def update_conv' arr_of_def)

lemma chunk_of_refresh: "k \<noteq> ''chunk'' \<Longrightarrow> chunk_of (refresh k entry e) = chunk_of e"
  by (simp add: refresh_def chunk_of_set_prop split: option.splits json.splits)

lemma id_of_refresh: "k \<noteq> ''id'' \<Longrightarrow> id_of (refresh k entry e) = id_of e"
  by (simp add: refresh_def id_of_set_prop split: option.splits json.splits)

lemma variants_of_refresh: "k \<noteq> ''variants'' \<Longrightarrow> variants_of (refresh k entry e) = variants_of e"
  by (simp add: refresh_def variants_of_set_prop split: option.splits json.splits)

lemma refresh_obj: "\<exists>kvs'. refresh k entry (JObj kvs) = JObj kvs'"
  by (simp add: refresh_def split: option.splits json.splits)

lemma chunk_of_fill_libEntry: "chunk_of (fill_libEntry c entry l) = chunk_of l"
  by (simp add: fill_libEntry_def chunk_of_refresh chunk_of_set_prop)

lemma id_of_update_id: "id_of (JObj (AList.update ''id'' (JStr s) kvs)) = s"
  by (simp add: id_of_def update_conv' str_of_def)

lemma variants_of_update_variants:
  "variants_of (JObj (AList.update ''variants'' (JArr vs) kvs)) = vs"
  by (simp add: variants_of_def update_conv' arr_of_def)

lemma id_of_fill_libEntry: "id_of (fill_libEntry c entry (JObj kvs)) = c"
proof -
  have "id_of (fill_libEntry c entry (JObj kvs))
        = id_of (set_prop ''id'' (JStr c) (JObj kvs))"
    unfolding fill_libEntry_def by (simp only: id_of_refresh id_of_set_prop list.inject char.inject simp_thms)
  then show ?thesis by (simp add: id_of_update_id)
qed

lemma variants_of_fill_libEntry:
  "variants_of (fill_libEntry c entry (JObj kvs))
     = union_variants (variants_of (JObj kvs)) (variants_of entry)"
proof -
  have "variants_of (fill_libEntry c entry (JObj kvs))
        = variants_of (set_prop ''variants''
            (JArr (union_variants (variants_of (JObj kvs)) (variants_of entry)))
            (set_prop ''id'' (JStr c) (JObj kvs)))"
    unfolding fill_libEntry_def by (simp add: variants_of_refresh)
  also have "\<dots> = union_variants (variants_of (JObj kvs)) (variants_of entry)"
    by (simp add: variants_of_update_variants)
  finally show ?thesis .
qed

lemma field_refresh_same:
  "field (refresh k entry (JObj kvs)) k
     = (if nullish (field entry k) then field (JObj kvs) k else field entry k)"
  by (simp add: refresh_def nullish_def update_conv' split: option.splits json.splits)

lemma field_refresh_other: "k' \<noteq> k \<Longrightarrow> field (refresh k entry e) k' = field e k'"
  by (simp add: refresh_def field_set_prop_other split: option.splits json.splits)

lemma libMap_okD:
  "libMap_ok st \<Longrightarrow> map_of (libMap st) c = Some i
   \<Longrightarrow> i < length (libEntries st) \<and> chunk_of (libEntries st ! i) = c"
  by (auto simp: libMap_ok_def list_all_iff dest!: map_of_SomeD)

lemma inLib_ofD:
  "libMap_ok st \<Longrightarrow> inLib_of st u = Some (i, l)
   \<Longrightarrow> i < length (libEntries st) \<and> l = libEntries st ! i \<and> chunk_of l = chunk_of u"
  by (auto simp: inLib_of_def split: option.splits dest: libMap_okD)

section \<open>The three branches of an iteration\<close>

lemma step_conflict:
  "id_conflict (inLib_of st u) u \<Longrightarrow>
   step cfg h d k u st
     = Inl (IdConflict (chunk_of u) (id_of u) (id_of (snd (the (inLib_of st u)))), world_of st)"
  by (auto simp: step_def id_conflict_def split: option.splits)

lemma step_hit:
  "inLib_of st u = Some (i, l) \<Longrightarrow> \<not> id_conflict (Some (i, l)) u \<Longrightarrow> has_id (Some (i, l)) \<Longrightarrow>
   step cfg h d k u st
     = Inr (st\<lparr>classEntries := (classEntries st)[k := set_prop ''id'' (JStr (id_of l)) u],
               libEntries := (libEntries st)
                 [i := set_prop ''variants''
                         (JArr (union_variants (variants_of l) (variants_of u))) l],
               skippedExisting := skippedExisting st @ [chunk_of u]\<rparr>)"
  by (simp add: step_def)

lemma step_miss_error:
  "\<not> id_conflict (inLib_of st u) u \<Longrightarrow> \<not> has_id (inLib_of st u) \<Longrightarrow>
   createVocabCard cfg h d u (calls st) = (Inl err, cs) \<Longrightarrow>
   step cfg h d k u st = Inl (err, world_of (st\<lparr>calls := cs\<rparr>))"
  by (simp add: step_def)

lemma step_miss_new:
  "inLib_of st u = None \<Longrightarrow> createVocabCard cfg h d u (calls st) = (Inr c, cs) \<Longrightarrow>
   step cfg h d k u st
     = Inr ((if DRY_RUN cfg then (\<lambda>s. s) else persist)
         (st\<lparr>calls := cs,
             classEntries := (classEntries st)[k := set_prop ''id'' (JStr c) u],
             libEntries := libEntries st @ [fill_libEntry c u (new_libEntry u)],
             libMap := AList.update (chunk_of u) (length (libEntries st)) (libMap st),
             created := Suc (created st)\<rparr>))"
  by (simp add: step_def id_conflict_def has_id_def)

lemma step_miss_old:
  "inLib_of st u = Some (i, l) \<Longrightarrow> \<not> id_conflict (Some (i, l)) u \<Longrightarrow> \<not> has_id (Some (i, l)) \<Longrightarrow>
   createVocabCard cfg h d u (calls st) = (Inr c, cs) \<Longrightarrow>
   step cfg h d k u st
     = Inr ((if DRY_RUN cfg then (\<lambda>s. s) else persist)
         (st\<lparr>calls := cs,
             classEntries := (classEntries st)[k := set_prop ''id'' (JStr c) u],
             libEntries := (libEntries st)[i := fill_libEntry c u l],
             created := Suc (created st)\<rparr>))"
  by (simp add: step_def)

text \<open>Every outcome of an iteration is one of the cases above.\<close>

lemma step_cases:
  obtains
    (conflict) "id_conflict (inLib_of st u) u"
  | (hit) i l where "inLib_of st u = Some (i, l)" "\<not> id_conflict (Some (i, l)) u" "has_id (Some (i, l))"
  | (failed) err cs where "\<not> id_conflict (inLib_of st u) u" "\<not> has_id (inLib_of st u)"
      "createVocabCard cfg h d u (calls st) = (Inl err, cs)"
  | (new) c cs where "inLib_of st u = None" "createVocabCard cfg h d u (calls st) = (Inr c, cs)"
  | (old) i l c cs where "inLib_of st u = Some (i, l)" "\<not> id_conflict (Some (i, l)) u"
      "\<not> has_id (Some (i, l))" "createVocabCard cfg h d u (calls st) = (Inr c, cs)"
proof (cases "id_conflict (inLib_of st u) u")
  case True
  then show ?thesis by (rule conflict)
next
  case nc: False
  show ?thesis
  proof (cases "has_id (inLib_of st u)")
    case True
    then obtain i l where "inLib_of st u = Some (i, l)"
      by (auto simp: has_id_def split: option.splits)
    with nc True show ?thesis by (auto intro: hit)
  next
    case nh: False
    obtain r cs where r: "createVocabCard cfg h d u (calls st) = (r, cs)"
      by (cases "createVocabCard cfg h d u (calls st)")
    show ?thesis
    proof (cases r)
      case (Inl err)
      with r nc nh show ?thesis by (auto intro: failed)
    next
      case (Inr c)
      show ?thesis
      proof (cases "inLib_of st u")
        case None
        with r Inr show ?thesis by (auto intro: new)
      next
        case (Some p)
        then obtain i l where "inLib_of st u = Some (i, l)" by (cases p) auto
        with r Inr nc nh show ?thesis by (auto intro: old)
      qed
    qed
  qed
qed

section \<open>The library index stays in step with the library\<close>

lemma set_update_subset: "set (AList.update k v al) \<subseteq> insert (k, v) (set al)"
  by (induction al) auto

lemma libMap_ok_iff:
  "libMap_ok st \<longleftrightarrow>
     (\<forall>(c, i) \<in> set (libMap st). i < length (libEntries st) \<and> chunk_of (libEntries st ! i) = c)"
  by (simp add: libMap_ok_def list_all_iff)

lemma indexByChunk_from_pairs:
  "(c, j) \<in> set (indexByChunk_from i es m) \<Longrightarrow>
   (c, j) \<in> set m \<or> (i \<le> j \<and> j < i + length es \<and> chunk_of (es ! (j - i)) = c)"
proof (induction es arbitrary: i m)
  case Nil
  then show ?case by simp
next
  case (Cons e es)
  from Cons.prems have "(c, j) \<in> set (indexByChunk_from (Suc i) es (AList.update (chunk_of e) i m))"
    by simp
  from Cons.IH[OF this]
  consider "(c, j) \<in> set (AList.update (chunk_of e) i m)"
    | "Suc i \<le> j" "j < Suc i + length es" "chunk_of (es ! (j - Suc i)) = c"
    by blast
  then show ?case
  proof cases
    case 1
    with set_update_subset[of "chunk_of e" i m] have "(c, j) = (chunk_of e, i) \<or> (c, j) \<in> set m"
      by auto
    then show ?thesis by auto
  next
    case 2
    then have "(e # es) ! (j - i) = es ! (j - Suc i)"
      by (simp add: nth_Cons' Suc_diff_le)
    with 2 show ?thesis by auto
  qed
qed

lemma libMap_ok_init: "libMap_ok (init_state w doc l cs)"
  unfolding libMap_ok_iff
  by (auto simp: init_state_def indexByChunk_def dest!: indexByChunk_from_pairs)

lemma libMap_ok_persist [simp]: "libMap_ok (persist st) = libMap_ok st"
  by (simp add: libMap_ok_def persist_def)

lemma libMap_ok_update_entry:
  assumes "libMap_ok st" "chunk_of e = chunk_of (libEntries st ! i)"
    and "libEntries st' = (libEntries st)[i := e]" "libMap st' = libMap st"
  shows "libMap_ok st'"
proof -
  have "j < length (libEntries st') \<and> chunk_of (libEntries st' ! j) = c"
    if "(c, j) \<in> set (libMap st')" for c j
  proof -
    from that assms(1,4) have j: "j < length (libEntries st)" "chunk_of (libEntries st ! j) = c"
      unfolding libMap_ok_iff by auto
    show ?thesis
      using j assms(2,3) by (cases "j = i") simp_all
  qed
  then show ?thesis unfolding libMap_ok_iff by auto
qed

lemma libMap_ok_push:
  assumes "libMap_ok st" "chunk_of e = c"
    and "libEntries st' = libEntries st @ [e]"
    and "libMap st' = AList.update c (length (libEntries st)) (libMap st)"
  shows "libMap_ok st'"
proof -
  have "i < length (libEntries st') \<and> chunk_of (libEntries st' ! i) = c'"
    if "(c', i) \<in> set (libMap st')" for c' i
  proof -
    from that assms(4) set_update_subset[of c "length (libEntries st)" "libMap st"]
    have "(c', i) = (c, length (libEntries st)) \<or> (c', i) \<in> set (libMap st)"
      by auto
    then show ?thesis
    proof
      assume "(c', i) = (c, length (libEntries st))"
      with assms(2,3) show ?thesis by simp
    next
      assume "(c', i) \<in> set (libMap st)"
      with assms(1) have "i < length (libEntries st)" "chunk_of (libEntries st ! i) = c'"
        unfolding libMap_ok_iff by auto
      with assms(3) show ?thesis by (simp add: nth_append)
    qed
  qed
  then show ?thesis unfolding libMap_ok_iff by auto
qed

lemma chunk_of_new_libEntry [simp]: "chunk_of (new_libEntry u) = chunk_of u"
  by (simp add: new_libEntry_def chunk_of_def[of "JObj kvs" for kvs] str_of_def)

lemma id_of_new_libEntry [simp]: "id_of (new_libEntry u) = []"
  by (simp add: new_libEntry_def id_of_def str_of_def)

lemma variants_of_new_libEntry [simp]: "variants_of (new_libEntry u) = []"
  by (simp add: new_libEntry_def variants_of_def arr_of_def)

lemma libMap_ok_guard: "libMap_ok ((if b then (\<lambda>s. s) else persist) st) = libMap_ok st"
  by simp

lemma libMap_ok_step:
  assumes ok: "libMap_ok st" and s: "step cfg h d k u st = Inr st'"
  shows "libMap_ok st'"
proof (cases rule: step_cases[where st = st and u = u and cfg = cfg and h = h and d = d])
  case conflict
  with s show ?thesis by (simp add: step_conflict)
next
  case (hit i l)
  from inLib_ofD[OF ok hit(1)] have l: "l = libEntries st ! i" by simp
  from s hit have st': "st' = st\<lparr>classEntries := (classEntries st)[k := set_prop ''id'' (JStr (id_of l)) u],
               libEntries := (libEntries st)
                 [i := set_prop ''variants''
                         (JArr (union_variants (variants_of l) (variants_of u))) l],
               skippedExisting := skippedExisting st @ [chunk_of u]\<rparr>"
    by (simp add: step_hit)
  show ?thesis
    by (rule libMap_ok_update_entry[OF ok, where i = i and e = "set_prop ''variants''
            (JArr (union_variants (variants_of l) (variants_of u))) l"])
       (simp_all add: st' l chunk_of_set_prop)
next
  case (failed err cs)
  with s show ?thesis by (simp add: step_miss_error)
next
  case (new c cs)
  let ?st1 = "st\<lparr>calls := cs,
             classEntries := (classEntries st)[k := set_prop ''id'' (JStr c) u],
             libEntries := libEntries st @ [fill_libEntry c u (new_libEntry u)],
             libMap := AList.update (chunk_of u) (length (libEntries st)) (libMap st),
             created := Suc (created st)\<rparr>"
  have "libMap_ok ?st1"
    by (rule libMap_ok_push[OF ok, where e = "fill_libEntry c u (new_libEntry u)" and c = "chunk_of u"])
       (simp_all add: chunk_of_fill_libEntry)
  moreover from s new have "st' = (if DRY_RUN cfg then (\<lambda>s. s) else persist) ?st1"
    by (simp add: step_miss_new)
  ultimately show ?thesis by (simp only: libMap_ok_guard)
next
  case (old i l c cs)
  from inLib_ofD[OF ok old(1)] have l: "l = libEntries st ! i" by simp
  let ?st1 = "st\<lparr>calls := cs,
             classEntries := (classEntries st)[k := set_prop ''id'' (JStr c) u],
             libEntries := (libEntries st)[i := fill_libEntry c u l],
             created := Suc (created st)\<rparr>"
  have "libMap_ok ?st1"
    by (rule libMap_ok_update_entry[OF ok, where i = i and e = "fill_libEntry c u l"])
       (simp_all add: l chunk_of_fill_libEntry)
  moreover from s old have "st' = (if DRY_RUN cfg then (\<lambda>s. s) else persist) ?st1"
    by (simp add: step_miss_old)
  ultimately show ?thesis by (simp only: libMap_ok_guard)
qed

lemma loop_append:
  "loop cfg h d k (us @ vs) st
     = (case loop cfg h d k us st of
          Inl err \<Rightarrow> Inl err
        | Inr st' \<Rightarrow> loop cfg h d (k + length us) vs st')"
  by (induction us arbitrary: k st) (auto split: sum.splits)

lemma libMap_ok_loop:
  "libMap_ok st \<Longrightarrow> loop cfg h d k us st = Inr st' \<Longrightarrow> libMap_ok st'"
  by (induction us arbitrary: k st) (auto split: sum.splits dest: libMap_ok_step)

section \<open>Identifier conflicts\<close>

text \<open>
  C1, as the code has it. The conflict test requires the unit's id to be non-blank
  (\<^verbatim>\<open>entry.id.trim()\<close>), not only non-empty. When the units before \<open>u\<close> have been
  processed, the chunk of \<open>u\<close> has a registry entry \<open>l\<close> with a non-empty id, and \<open>u\<close>
  carries a non-blank id that differs from it, the iteration for \<open>u\<close> and the whole loop
  fail with the conflict error. The world left behind is the world after the earlier
  units: the same requests (none for \<open>u\<close>), the files as last saved; no unit after \<open>u\<close>
  has any effect.
\<close>

theorem conflict_aborts_run:
  assumes "loop cfg h d k pre st = Inr st1"
    and "inLib_of st1 u = Some (i, l)"
    and "id_of l \<noteq> []"
    and "trim (id_of u) \<noteq> []"
    and "id_of u \<noteq> id_of l"
  shows "step cfg h d (k + length pre) u st1
           = Inl (IdConflict (chunk_of u) (id_of u) (id_of l), world_of st1)
       \<and> loop cfg h d k (pre @ u # rest) st
           = Inl (IdConflict (chunk_of u) (id_of u) (id_of l), world_of st1)"
proof -
  from assms(4) have "id_of u \<noteq> []" by (rule trim_nonempty)
  with assms(2,3,4,5) have c: "id_conflict (inLib_of st1 u) u"
    by (simp add: id_conflict_def)
  have s: "step cfg h d (k + length pre) u st1
           = Inl (IdConflict (chunk_of u) (id_of u) (id_of l), world_of st1)"
    using step_conflict[OF c] assms(2) by simp
  show ?thesis
    using s assms(1) by (simp add: loop_append)
qed

theorem conflict_aborts_run_witness:
  "loop demo_config demo_host (utf16 ''deck'') 0 [unit_json ''sol'' [] [jstr ''sol'']]
      (demo_state three_units [unit_json ''casa'' ''Y999'' []]) = Inr after_sol
   \<and> inLib_of after_sol (unit_json ''casa'' ''X123'' []) = Some (0, unit_json ''casa'' ''Y999'' [])
   \<and> loop demo_config demo_host (utf16 ''deck'') 0 three_units
        (demo_state three_units [unit_json ''casa'' ''Y999'' []])
      = Inl (IdConflict (utf16 ''casa'') (utf16 ''X123'') (utf16 ''Y999''), world_of after_sol)
   \<and> length (calls after_sol) = 2"
proof -
  let ?S = "demo_state three_units [unit_json ''casa'' ''Y999'' []]"
  let ?u = "unit_json ''casa'' ''X123'' []"
  let ?l = "unit_json ''casa'' ''Y999'' []"
  have 1: "loop demo_config demo_host (utf16 ''deck'') 0 [unit_json ''sol'' [] [jstr ''sol'']] ?S = Inr after_sol"
    by code_simp
  have 2: "inLib_of after_sol ?u = Some (0, ?l)"
    by code_simp
  have 3: "id_of ?l \<noteq> []" by code_simp
  have 4: "trim (id_of ?u) \<noteq> []" by code_simp
  have 5: "id_of ?u \<noteq> id_of ?l" by code_simp
  have 6: "[unit_json ''sol'' [] [jstr ''sol'']] @ ?u # [unit_json ''lua'' [] []] = three_units"
    by (simp add: three_units_def)
  have 7: "chunk_of ?u = utf16 ''casa''" "id_of ?u = utf16 ''X123''" "id_of ?l = utf16 ''Y999''" by code_simp+
  have 8: "length (calls after_sol) = 2" by code_simp
  note c = conflict_aborts_run[OF 1 2 3 4 5, of "[unit_json ''lua'' [] []]"]
  show ?thesis
    using 1 2 8 c[THEN conjunct2] unfolding 6 7 by blast
qed

text \<open>
  C1 as stated asks only for a non-empty unit id. A unit whose id is one space, for a
  chunk registered under \<open>Y999\<close>, raises no conflict: the run succeeds, the unit is
  skipped as already registered and its id is overwritten with the registry's.
\<close>

theorem blank_unit_id_is_no_conflict:
  "id_of (unit_json ''casa'' '' '' [jstr ''lar'']) \<noteq> []
   \<and> id_of (unit_json ''casa'' ''Y999'' [jstr ''casa'']) \<noteq> []
   \<and> id_of (unit_json ''casa'' '' '' [jstr ''lar'']) \<noteq> id_of (unit_json ''casa'' ''Y999'' [jstr ''casa''])
   \<and> (case main demo_config demo_host
              \<lparr>class_file = Some (class_json [unit_json ''casa'' '' '' [jstr ''lar'']]),
               lib_file = Some (library_json [unit_json ''casa'' ''Y999'' [jstr ''casa'']]),
               calls = []\<rparr> of
         Inl failure \<Rightarrow> False
       | Inr st \<Rightarrow> classEntries st = [unit_json ''casa'' ''Y999'' [jstr ''lar'']]
                   \<and> skippedExisting st = [utf16 ''casa''] \<and> created st = 0)"
  by code_simp

section \<open>Cache hits\<close>

lemma world_of_eq:
  "world_of st' = world_of st \<longleftrightarrow>
     class_file st' = class_file st \<and> lib_file st' = lib_file st \<and> calls st' = calls st"
  by (auto simp: world_of_def)

text \<open>
  C3, as the code has it. The cache-hit test is \<^verbatim>\<open>inLib.id && inLib.id.trim()\<close>: the
  registry id must be non-blank, not only non-empty. For a unit \<open>u\<close> (an entry of a
  validated class document, at position \<open>k\<close>) whose chunk has a registry entry \<open>l\<close> with
  a non-blank id, and whose own id is blank or equal to the registry's, the iteration
  succeeds; it writes the registry's id into the unit, replaces the variants of the
  registry entry with the union of its variants and the unit's, appends the chunk to
  the skipped list, and leaves the requests, the files, the counter and the index as
  they were.
\<close>

theorem cache_hit_backfills_and_skips:
  assumes "libMap_ok st"
    and "inLib_of st u = Some (i, l)"
    and "trim (id_of l) \<noteq> []"
    and "trim (id_of u) = [] \<or> id_of u = id_of l"
    and "chunk_of u \<noteq> []"
    and "k < length (classEntries st)"
  shows "\<exists>st'. step cfg h d k u st = Inr st'
     \<and> classEntries st' = (classEntries st)[k := set_prop ''id'' (JStr (id_of l)) u]
     \<and> id_of (classEntries st' ! k) = id_of l
     \<and> libEntries st' = (libEntries st)
          [i := set_prop ''variants'' (JArr (union_variants (variants_of l) (variants_of u))) l]
     \<and> variants_of (libEntries st' ! i) = union_variants (variants_of l) (variants_of u)
     \<and> id_of (libEntries st' ! i) = id_of l
     \<and> skippedExisting st' = skippedExisting st @ [chunk_of u]
     \<and> calls st' = calls st
     \<and> class_file st' = class_file st \<and> lib_file st' = lib_file st
     \<and> created st' = created st
     \<and> libMap st' = libMap st"
proof -
  from assms(3) have idl: "id_of l \<noteq> []" by (rule trim_nonempty)
  from assms(4) have nc: "\<not> id_conflict (Some (i, l)) u"
    by (auto simp: id_conflict_def)
  from idl assms(3) have hit: "has_id (Some (i, l))"
    by (simp add: has_id_def)
  from inLib_ofD[OF assms(1,2)] have i: "i < length (libEntries st)" by simp
  from chunk_of_obj[OF assms(5)] obtain ukvs where u: "u = JObj ukvs" by blast
  from id_of_obj[OF idl] obtain lkvs where l: "l = JObj lkvs" by blast
  let ?st' = "st\<lparr>classEntries := (classEntries st)[k := set_prop ''id'' (JStr (id_of l)) u],
               libEntries := (libEntries st)
                 [i := set_prop ''variants''
                         (JArr (union_variants (variants_of l) (variants_of u))) l],
               skippedExisting := skippedExisting st @ [chunk_of u]\<rparr>"
  have s: "step cfg h d k u st = Inr ?st'"
    by (rule step_hit[OF assms(2) nc hit])
  have a: "id_of (classEntries ?st' ! k) = id_of l"
    using assms(6) by (simp add: u id_of_update_id)
  have b: "variants_of (libEntries ?st' ! i) = union_variants (variants_of l) (variants_of u)"
    using i by (simp add: l[symmetric] variants_of_set_variants[of _ lkvs, folded l])
  have c: "id_of (libEntries ?st' ! i) = id_of l"
    using i by (simp add: id_of_set_prop)
  show ?thesis
    using s a b c by (intro exI[of _ ?st']) simp
qed


theorem cache_hit_backfills_and_skips_witness:
  "libMap_ok (demo_state [unit_json ''casa'' [] [jstr ''lar'']] [unit_json ''casa'' ''Y999'' [jstr ''casa'']])
   \<and> inLib_of (demo_state [unit_json ''casa'' [] [jstr ''lar'']] [unit_json ''casa'' ''Y999'' [jstr ''casa'']])
        (unit_json ''casa'' [] [jstr ''lar'']) = Some (0, unit_json ''casa'' ''Y999'' [jstr ''casa''])
   \<and> (\<exists>st'. step demo_config demo_host (utf16 ''deck'') 0 (unit_json ''casa'' [] [jstr ''lar''])
              (demo_state [unit_json ''casa'' [] [jstr ''lar'']] [unit_json ''casa'' ''Y999'' [jstr ''casa'']])
            = Inr st'
        \<and> id_of (classEntries st' ! 0) = utf16 ''Y999''
        \<and> variants_of (libEntries st' ! 0) = [jstr ''casa'', jstr ''lar'']
        \<and> skippedExisting st' = [utf16 ''casa'']
        \<and> calls st' = [GET_decks]
        \<and> created st' = 0)"
proof -
  let ?u = "unit_json ''casa'' [] [jstr ''lar'']"
  let ?l = "unit_json ''casa'' ''Y999'' [jstr ''casa'']"
  let ?S = "demo_state [?u] [?l]"
  have 1: "libMap_ok ?S" by code_simp
  have 2: "inLib_of ?S ?u = Some (0, ?l)" by code_simp
  have 3: "trim (id_of ?l) \<noteq> []" by code_simp
  have 4: "trim (id_of ?u) = [] \<or> id_of ?u = id_of ?l" by code_simp
  have 5: "chunk_of ?u \<noteq> []" by code_simp
  have 6: "0 < length (classEntries ?S)" by code_simp
  have 7: "id_of ?l = utf16 ''Y999''" "union_variants (variants_of ?l) (variants_of ?u) = [jstr ''casa'', jstr ''lar'']"
    "skippedExisting ?S @ [chunk_of ?u] = [utf16 ''casa'']" "calls ?S = [GET_decks]" "created ?S = 0"
    by code_simp+
  from cache_hit_backfills_and_skips[OF 1 2 3 4 5 6, of demo_config demo_host "utf16 ''deck''"]
  obtain st' where "step demo_config demo_host (utf16 ''deck'') 0 ?u ?S = Inr st'"
    "id_of (classEntries st' ! 0) = id_of ?l"
    "variants_of (libEntries st' ! 0) = union_variants (variants_of ?l) (variants_of ?u)"
    "skippedExisting st' = skippedExisting ?S @ [chunk_of ?u]"
    "calls st' = calls ?S" "created st' = created ?S"
    by blast
  then show ?thesis
    using 1 2 unfolding 7 by blast
qed

text \<open>
  C3 as stated asks only for a non-empty registry id. A registry entry whose id is one
  space is not a cache hit: for a unit with an empty id (so there is no conflict) the
  run sends \<^verbatim>\<open>POST /cards\<close>, counts a created card and skips nothing.
\<close>

theorem blank_registry_id_is_no_cache_hit:
  "id_of (unit_json ''casa'' '' '' []) \<noteq> []
   \<and> id_of (unit_json ''casa'' [] [jstr ''casa'']) = []
   \<and> (case main demo_config demo_host
              \<lparr>class_file = Some (class_json [unit_json ''casa'' [] [jstr ''casa'']]),
               lib_file = Some (library_json [unit_json ''casa'' '' '' []]),
               calls = []\<rparr> of
         Inl failure \<Rightarrow> False
       | Inr st \<Rightarrow>
           calls st = [GET_decks, POST_decks (utf16 ''001_V'') None,
                       POST_cards \<lparr>content = [], body_deck_id = utf16 ''deck_001_V'', template_id = utf16 ''tmpl'',
                                    body_fields = [(utf16 ''term'', utf16 ''casa''), (utf16 ''meaning'', [])]\<rparr>]
           \<and> created st = 1 \<and> skippedExisting st = [])"
  by code_simp

section \<open>Cache misses\<close>

lemma createVocabCard_calls:
  assumes "createVocabCard cfg h d u cs0 = (Inr c, cs)"
  shows "if DRY_RUN cfg then cs = cs0
         else \<exists>body. cs = cs0 @ [POST_cards body] \<and> new_card_response h cs0 body = Some c"
  using assms by (auto simp: createVocabCard_def Let_def split: if_splits option.splits)

lemma persist_fields [simp]:
  "classEntries (persist st) = classEntries st" "libEntries (persist st) = libEntries st"
  "libMap (persist st) = libMap st" "calls (persist st) = calls st"
  "created (persist st) = created st" "skippedExisting (persist st) = skippedExisting st"
  "classDoc (persist st) = classDoc st" "lib (persist st) = lib st"
  "class_file (persist st) = Some (with_entries (classDoc st) (classEntries st))"
  "lib_file (persist st) = Some (with_entries (lib st) (libEntries st))"
  by (simp_all add: persist_def)

text \<open>
  C4, as the code has it. Let \<open>u\<close> be a unit whose chunk has no registry entry, or one
  with an empty id, and let \<^verbatim>\<open>createVocabCard\<close> return the identifier \<open>c\<close>. Outside a
  dry run that identifier is the answer to a \<^verbatim>\<open>POST /cards\<close> request, which is added to
  the requests sent. The iteration succeeds: the unit gets the id \<open>c\<close>; a missing
  registry entry is created with empty variants and appended (and indexed under the
  chunk); the registry entry gets the id \<open>c\<close> and the union of its variants and the
  unit's; the counter goes up by one. Outside a dry run both files are then saved with
  the new contents; in a dry run (\<^verbatim>\<open>DRY_RUN=1\<close>) no file is written.
\<close>

theorem cache_miss_provisions_and_registers:
  assumes "libMap_ok st"
    and "inLib_of st u = None \<or> (\<exists>i l. inLib_of st u = Some (i, l) \<and> id_of l = [])"
    and "createVocabCard cfg h d u (calls st) = (Inr c, cs)"
    and "chunk_of u \<noteq> []"
  shows "\<exists>st'. step cfg h d k u st = Inr st'
     \<and> (if DRY_RUN cfg then cs = calls st
         else \<exists>body. cs = calls st @ [POST_cards body] \<and> new_card_response h (calls st) body = Some c)
     \<and> calls st' = cs
     \<and> classEntries st' = (classEntries st)[k := set_prop ''id'' (JStr c) u]
     \<and> id_of (set_prop ''id'' (JStr c) u) = c
     \<and> (case inLib_of st u of
           None \<Rightarrow>
             libEntries st' = libEntries st @ [fill_libEntry c u (new_libEntry u)]
             \<and> map_of (libMap st') (chunk_of u) = Some (length (libEntries st))
             \<and> variants_of (new_libEntry u) = []
             \<and> chunk_of (last (libEntries st')) = chunk_of u
             \<and> id_of (last (libEntries st')) = c
             \<and> variants_of (last (libEntries st')) = union_variants [] (variants_of u)
         | Some (i, l) \<Rightarrow>
             libEntries st' = (libEntries st)[i := fill_libEntry c u l]
             \<and> libMap st' = libMap st
             \<and> chunk_of (libEntries st' ! i) = chunk_of u
             \<and> id_of (libEntries st' ! i) = c
             \<and> variants_of (libEntries st' ! i) = union_variants (variants_of l) (variants_of u))
     \<and> created st' = Suc (created st)
     \<and> skippedExisting st' = skippedExisting st
     \<and> classDoc st' = classDoc st \<and> lib st' = lib st
     \<and> (if DRY_RUN cfg then class_file st' = class_file st \<and> lib_file st' = lib_file st
         else class_file st' = Some (with_entries (classDoc st') (classEntries st'))
              \<and> lib_file st' = Some (with_entries (lib st') (libEntries st')))"
proof -
  from chunk_of_obj[OF assms(4)] obtain ukvs where u: "u = JObj ukvs" by blast
  have idu: "id_of (set_prop ''id'' (JStr c) u) = c"
    by (simp add: u id_of_update_id)
  note cc = createVocabCard_calls[OF assms(3)]
  from assms(2) show ?thesis
  proof
    assume n: "inLib_of st u = None"
    let ?st1 = "st\<lparr>calls := cs,
             classEntries := (classEntries st)[k := set_prop ''id'' (JStr c) u],
             libEntries := libEntries st @ [fill_libEntry c u (new_libEntry u)],
             libMap := AList.update (chunk_of u) (length (libEntries st)) (libMap st),
             created := Suc (created st)\<rparr>"
    let ?st' = "(if DRY_RUN cfg then (\<lambda>s. s) else persist) ?st1"
    have s: "step cfg h d k u st = Inr ?st'"
      by (rule step_miss_new[OF n assms(3)])
    obtain nkvs where nl: "new_libEntry u = JObj nkvs"
      by (simp add: new_libEntry_def)
    have e: "chunk_of (fill_libEntry c u (new_libEntry u)) = chunk_of u"
      "id_of (fill_libEntry c u (new_libEntry u)) = c"
      "variants_of (fill_libEntry c u (new_libEntry u)) = union_variants [] (variants_of u)"
      using id_of_fill_libEntry[of c u nkvs] variants_of_fill_libEntry[of c u nkvs]
      by (simp_all add: chunk_of_fill_libEntry nl[symmetric])
    show ?thesis
      using s cc idu e n
      by (intro exI[of _ ?st']) (simp add: update_conv')
  next
    assume "\<exists>i l. inLib_of st u = Some (i, l) \<and> id_of l = []"
    then obtain i l where o: "inLib_of st u = Some (i, l)" and il: "id_of l = []" by blast
    from inLib_ofD[OF assms(1) o] have i: "i < length (libEntries st)"
      and cl: "chunk_of l = chunk_of u" by blast+
    from cl assms(4) chunk_of_obj[of l] obtain lkvs where l: "l = JObj lkvs" by auto
    from il have nc: "\<not> id_conflict (Some (i, l)) u" and nh: "\<not> has_id (Some (i, l))"
      by (simp_all add: id_conflict_def has_id_def)
    let ?st1 = "st\<lparr>calls := cs,
             classEntries := (classEntries st)[k := set_prop ''id'' (JStr c) u],
             libEntries := (libEntries st)[i := fill_libEntry c u l],
             created := Suc (created st)\<rparr>"
    let ?st' = "(if DRY_RUN cfg then (\<lambda>s. s) else persist) ?st1"
    have s: "step cfg h d k u st = Inr ?st'"
      by (rule step_miss_old[OF o nc nh assms(3)])
    have e: "chunk_of (fill_libEntry c u l) = chunk_of u"
      "id_of (fill_libEntry c u l) = c"
      "variants_of (fill_libEntry c u l) = union_variants (variants_of l) (variants_of u)"
      using id_of_fill_libEntry[of c u lkvs] variants_of_fill_libEntry[of c u lkvs] cl
      by (simp_all add: chunk_of_fill_libEntry l[symmetric])
    show ?thesis
      using s cc idu e o i
      by (intro exI[of _ ?st']) simp
  qed
qed


theorem cache_miss_provisions_and_registers_witness:
  "libMap_ok (demo_state [unit_json ''casa'' [] [jstr ''casa'']] [])
   \<and> inLib_of (demo_state [unit_json ''casa'' [] [jstr ''casa'']] []) (unit_json ''casa'' [] [jstr ''casa'']) = None
   \<and> fst (createVocabCard demo_config demo_host (utf16 ''deck'') (unit_json ''casa'' [] [jstr ''casa''])
             (calls (demo_state [unit_json ''casa'' [] [jstr ''casa'']] []))) = Inr (utf16 ''card+'')
   \<and> (\<exists>st'. step demo_config demo_host (utf16 ''deck'') 0 (unit_json ''casa'' [] [jstr ''casa''])
              (demo_state [unit_json ''casa'' [] [jstr ''casa'']] []) = Inr st'
        \<and> classEntries st' = [unit_json ''casa'' ''card+'' [jstr ''casa'']]
        \<and> libEntries st' = [unit_json ''casa'' ''card+'' [jstr ''casa'']]
        \<and> created st' = 1
        \<and> class_file st' = Some (class_json [unit_json ''casa'' ''card+'' [jstr ''casa'']])
        \<and> lib_file st' = Some (library_json [unit_json ''casa'' ''card+'' [jstr ''casa'']]))"
proof -
  let ?u = "unit_json ''casa'' [] [jstr ''casa'']"
  let ?S = "demo_state [?u] []"
  let ?cs = "[GET_decks, POST_cards \<lparr>content = [], body_deck_id = utf16 ''deck'', template_id = utf16 ''tmpl'',
                                     body_fields = [(utf16 ''term'', utf16 ''casa''), (utf16 ''meaning'', [])]\<rparr>]"
  let ?e = "unit_json ''casa'' ''card+'' [jstr ''casa'']"
  have 1: "libMap_ok ?S" by code_simp
  have n: "inLib_of ?S ?u = None" by code_simp
  then have 2: "inLib_of ?S ?u = None \<or> (\<exists>i l. inLib_of ?S ?u = Some (i, l) \<and> id_of l = [])" ..
  have 3: "createVocabCard demo_config demo_host (utf16 ''deck'') ?u (calls ?S) = (Inr (utf16 ''card+''), ?cs)"
    by code_simp
  have 4: "chunk_of ?u \<noteq> []" by code_simp
  have dry: "DRY_RUN demo_config = False" by code_simp
  have ev: "(classEntries ?S)[0 := set_prop ''id'' (jstr ''card+'') ?u] = [?e]"
    "libEntries ?S @ [fill_libEntry (utf16 ''card+'') ?u (new_libEntry ?u)] = [?e]"
    "Suc (created ?S) = 1"
    "with_entries (classDoc ?S) [?e] = class_json [?e]"
    "with_entries (lib ?S) [?e] = library_json [?e]"
    by code_simp+
  from cache_miss_provisions_and_registers[OF 1 2 3 4, of 0]
  obtain st' where s: "step demo_config demo_host (utf16 ''deck'') 0 ?u ?S = Inr st'"
    and a: "classEntries st' = (classEntries ?S)[0 := set_prop ''id'' (jstr ''card+'') ?u]"
    and b: "case inLib_of ?S ?u of
              None \<Rightarrow> libEntries st' = libEntries ?S @ [fill_libEntry (utf16 ''card+'') ?u (new_libEntry ?u)]
                \<and> map_of (libMap st') (chunk_of ?u) = Some (length (libEntries ?S))
                \<and> variants_of (new_libEntry ?u) = []
                \<and> chunk_of (last (libEntries st')) = chunk_of ?u
                \<and> id_of (last (libEntries st')) = utf16 ''card+''
                \<and> variants_of (last (libEntries st')) = union_variants [] (variants_of ?u)
            | Some (i, l) \<Rightarrow> libEntries st' = (libEntries ?S)[i := fill_libEntry (utf16 ''card+'') ?u l]
                \<and> libMap st' = libMap ?S
                \<and> chunk_of (libEntries st' ! i) = chunk_of ?u
                \<and> id_of (libEntries st' ! i) = utf16 ''card+''
                \<and> variants_of (libEntries st' ! i) = union_variants (variants_of l) (variants_of ?u)"
    and c: "created st' = Suc (created ?S)"
    and d: "classDoc st' = classDoc ?S" "lib st' = lib ?S"
    and f: "if DRY_RUN demo_config then class_file st' = class_file ?S \<and> lib_file st' = lib_file ?S
            else class_file st' = Some (with_entries (classDoc st') (classEntries st'))
                 \<and> lib_file st' = Some (with_entries (lib st') (libEntries st'))"
    by blast
  from b have b': "libEntries st' = libEntries ?S @ [fill_libEntry (utf16 ''card+'') ?u (new_libEntry ?u)]"
    unfolding n by (simp only: option.case)
  from f have f': "class_file st' = Some (with_entries (classDoc st') (classEntries st'))"
    "lib_file st' = Some (with_entries (lib st') (libEntries st'))"
    unfolding dry by (simp_all only: if_False)
  have r: "classEntries st' = [?e]" "libEntries st' = [?e]" "created st' = 1"
    "class_file st' = Some (class_json [?e])" "lib_file st' = Some (library_json [?e])"
    using a b' c f' unfolding d by (simp_all only: ev)
  have c3: "fst (createVocabCard demo_config demo_host (utf16 ''deck'') ?u (calls ?S)) = Inr (utf16 ''card+'')"
    unfolding 3 by (simp only: fst_conv)
  show ?thesis
    using 1 n c3 s r by blast
qed

text \<open>
  C4 as stated has both files saved after every such mutation. In a dry run nothing is
  written: the unit and the registry get the placeholder identifier in memory and the
  counter goes up, while the class file and the library file stay as they
  were.
\<close>

theorem dry_run_miss_is_not_persisted:
  "inLib_of (demo_state [unit_json ''casa'' [] [jstr ''casa'']] []) (unit_json ''casa'' [] [jstr ''casa'']) = None
   \<and> (case step dry_config demo_host (utf16 ''deck'') 0 (unit_json ''casa'' [] [jstr ''casa''])
              (demo_state [unit_json ''casa'' [] [jstr ''casa'']] []) of
         Inl failure \<Rightarrow> False
       | Inr st' \<Rightarrow>
           classEntries st' = [unit_json ''casa'' ''DRY_CARD_casa'' [jstr ''casa'']]
           \<and> libEntries st' = [unit_json ''casa'' ''DRY_CARD_casa'' [jstr ''casa'']]
           \<and> created st' = 1
           \<and> class_file st' = Some (class_json [unit_json ''casa'' [] [jstr ''casa'']])
           \<and> lib_file st' = Some (library_json []))"
  by code_simp

section \<open>Assigned registry identifiers\<close>

lemma mset_insert_entry: "mset (insert_entry cmp a bs) = add_mset a (mset bs)"
  by (induction bs) auto

lemma mset_sort_entries: "mset (sort_entries cmp es) = mset es"
  by (induction es) (auto simp: sort_entries_def mset_insert_entry)

lemma libEntries_finish:
  "libEntries (finish cfg h st) = sort_entries (localeCompare h) (libEntries st)"
  by (simp add: finish_def Let_def)

lemma guard_fields [simp]:
  "libEntries ((if b then (\<lambda>s. s) else persist) st) = libEntries st"
  "classEntries ((if b then (\<lambda>s. s) else persist) st) = classEntries st"
  "libMap ((if b then (\<lambda>s. s) else persist) st) = libMap st"
  "calls ((if b then (\<lambda>s. s) else persist) st) = calls st"
  "created ((if b then (\<lambda>s. s) else persist) st) = created st"
  "skippedExisting ((if b then (\<lambda>s. s) else persist) st) = skippedExisting st"
  "classDoc ((if b then (\<lambda>s. s) else persist) st) = classDoc st"
  "lib ((if b then (\<lambda>s. s) else persist) st) = lib st"
  by simp_all

lemma step_keeps_assigned_id:
  assumes ok: "libMap_ok st" and s: "step cfg h d k u st = Inr st'"
    and j: "j < length (libEntries st)" and a: "trim (id_of (libEntries st ! j)) \<noteq> []"
  shows "j < length (libEntries st') \<and> id_of (libEntries st' ! j) = id_of (libEntries st ! j)
         \<and> chunk_of (libEntries st' ! j) = chunk_of (libEntries st ! j)"
proof (cases rule: step_cases[where st = st and u = u and cfg = cfg and h = h and d = d])
  case conflict
  with s show ?thesis by (simp add: step_conflict)
next
  case (hit i l)
  from inLib_ofD[OF ok hit(1)] have l: "l = libEntries st ! i" by blast
  from s hit have "libEntries st' = (libEntries st)
        [i := set_prop ''variants'' (JArr (union_variants (variants_of l) (variants_of u))) l]"
    by (auto simp: step_hit)
  with j l show ?thesis
    by (cases "i = j") (simp_all add: id_of_set_prop chunk_of_set_prop)
next
  case (failed err cs)
  with s show ?thesis by (simp add: step_miss_error)
next
  case (new c cs)
  with s have "libEntries st' = libEntries st @ [fill_libEntry c u (new_libEntry u)]"
    by (auto simp: step_miss_new)
  with j show ?thesis by (simp add: nth_append)
next
  case (old i l c cs)
  from inLib_ofD[OF ok old(1)] have l: "l = libEntries st ! i" by blast
  from a have "id_of (libEntries st ! j) \<noteq> []" by (rule trim_nonempty)
  with a old(3) l have "i \<noteq> j" by (auto simp: has_id_def)
  moreover from s old have "libEntries st' = (libEntries st)[i := fill_libEntry c u l]"
    by (auto simp: step_miss_old)
  ultimately show ?thesis using j by simp
qed

lemma loop_keeps_assigned_id:
  "libMap_ok st \<Longrightarrow> loop cfg h d k us st = Inr st' \<Longrightarrow>
   j < length (libEntries st) \<Longrightarrow> trim (id_of (libEntries st ! j)) \<noteq> [] \<Longrightarrow>
   j < length (libEntries st') \<and> id_of (libEntries st' ! j) = id_of (libEntries st ! j)
     \<and> chunk_of (libEntries st' ! j) = chunk_of (libEntries st ! j)"
proof (induction us arbitrary: k st)
  case Nil
  then show ?case by simp
next
  case (Cons u us)
  from Cons.prems(2) obtain st1 where 1: "step cfg h d k u st = Inr st1"
    and 2: "loop cfg h d (Suc k) us st1 = Inr st'"
    by (auto split: sum.splits)
  note k1 = step_keeps_assigned_id[OF Cons.prems(1) 1 Cons.prems(3,4)]
  from Cons.IH[OF libMap_ok_step[OF Cons.prems(1) 1] 2] k1 Cons.prems(4)
  show ?case by simp
qed

text \<open>
  C5, as the code has it. An identifier counts as assigned when it is non-blank
  (\<^verbatim>\<open>inLib.id.trim()\<close>). From any state of a run, whatever units the loop goes on to
  process, a registry entry with a non-blank id is still at its position with the same
  chunk and the same id when the loop ends; and the final sort only reorders the
  entries.
\<close>

theorem assigned_registry_id_is_kept:
  assumes "libMap_ok st"
    and "loop cfg h d k us st = Inr st'"
    and "j < length (libEntries st)"
    and "trim (id_of (libEntries st ! j)) \<noteq> []"
  shows "j < length (libEntries st')
     \<and> id_of (libEntries st' ! j) = id_of (libEntries st ! j)
     \<and> chunk_of (libEntries st' ! j) = chunk_of (libEntries st ! j)
     \<and> mset (libEntries (finish cfg h st')) = mset (libEntries st')"
  using loop_keeps_assigned_id[OF assms]
  by (simp add: libEntries_finish mset_sort_entries)


theorem assigned_registry_id_is_kept_witness:
  "libMap_ok (demo_state [unit_json ''sol'' [] [jstr ''sol''], unit_json ''casa'' [] [jstr ''lar'']]
                [unit_json ''casa'' ''Y999'' [jstr ''casa'']])
   \<and> (\<exists>st'. loop demo_config demo_host (utf16 ''deck'') 0
               [unit_json ''sol'' [] [jstr ''sol''], unit_json ''casa'' [] [jstr ''lar'']]
               (demo_state [unit_json ''sol'' [] [jstr ''sol''], unit_json ''casa'' [] [jstr ''lar'']]
                  [unit_json ''casa'' ''Y999'' [jstr ''casa'']]) = Inr st'
        \<and> 0 < length (libEntries st')
        \<and> id_of (libEntries st' ! 0) = utf16 ''Y999''
        \<and> chunk_of (libEntries st' ! 0) = utf16 ''casa''
        \<and> mset (libEntries (finish demo_config demo_host st')) = mset (libEntries st'))"
proof -
  let ?us = "[unit_json ''sol'' [] [jstr ''sol''], unit_json ''casa'' [] [jstr ''lar'']]"
  let ?S = "demo_state ?us [unit_json ''casa'' ''Y999'' [jstr ''casa'']]"
  have 1: "libMap_ok ?S" by code_simp
  have "case loop demo_config demo_host (utf16 ''deck'') 0 ?us ?S of Inl failure \<Rightarrow> False | Inr st' \<Rightarrow> True"
    by code_simp
  then obtain st' where 2: "loop demo_config demo_host (utf16 ''deck'') 0 ?us ?S = Inr st'"
    by (auto split: sum.splits)
  have 3: "0 < length (libEntries ?S)" by code_simp
  have 4: "trim (id_of (libEntries ?S ! 0)) \<noteq> []" by code_simp
  have 5: "id_of (libEntries ?S ! 0) = utf16 ''Y999''" "chunk_of (libEntries ?S ! 0) = utf16 ''casa''"
    by code_simp+
  from assigned_registry_id_is_kept[OF 1 2 3 4]
  show ?thesis
    using 1 2 unfolding 5 by blast
qed

text \<open>
  C5 as stated protects every non-empty registry id. A registry id of two spaces is
  non-empty, yet the iteration for a unit of that chunk replaces it with the identifier
  of the card it creates.
\<close>

theorem blank_registry_id_is_replaced:
  "id_of (libEntries (demo_state [unit_json ''casa'' [] []] [unit_json ''casa'' ''  '' []]) ! 0) = utf16 ''  ''
   \<and> (case step demo_config demo_host (utf16 ''deck'') 0 (unit_json ''casa'' [] [])
              (demo_state [unit_json ''casa'' [] []] [unit_json ''casa'' ''  '' []]) of
         Inl failure \<Rightarrow> False
       | Inr st' \<Rightarrow> id_of (libEntries st' ! 0) = utf16 ''card+'' \<and> chunk_of (libEntries st' ! 0) = utf16 ''casa'')"
  by code_simp

section \<open>Later encounters of a registered chunk\<close>

lemma field_fill_libEntry_meaning:
  "field (fill_libEntry c u (JObj kvs)) ''meaning''
     = (if nullish (field u ''meaning'') then field (JObj kvs) ''meaning'' else field u ''meaning'')"
proof -
  have "field (fill_libEntry c u (JObj kvs)) ''meaning''
        = field (refresh ''meaning'' u
            (JObj (AList.update ''variants''
               (JArr (union_variants (variants_of (JObj kvs)) (variants_of u)))
               (AList.update ''id'' (JStr c) kvs)))) ''meaning''"
    unfolding fill_libEntry_def by (simp add: field_refresh_other)
  also have "\<dots> = (if nullish (field u ''meaning'')
        then field (JObj (AList.update ''variants''
               (JArr (union_variants (variants_of (JObj kvs)) (variants_of u)))
               (AList.update ''id'' (JStr c) kvs))) ''meaning''
        else field u ''meaning'')"
    by (rule field_refresh_same)
  finally show ?thesis by (simp add: update_conv')
qed

lemma field_fill_libEntry_obs:
  "field (fill_libEntry c u (JObj kvs)) ''obs''
     = (if nullish (field u ''obs'') then field (JObj kvs) ''obs'' else field u ''obs'')"
proof -
  let ?y = "set_prop ''variants'' (JArr (union_variants (variants_of (JObj kvs)) (variants_of u)))
              (set_prop ''id'' (JStr c) (JObj kvs))"
  obtain ykvs where y: "?y = JObj ykvs" by simp
  obtain zkvs where z: "refresh ''meaning'' u (JObj ykvs) = JObj zkvs"
    using refresh_obj by blast
  have "field (fill_libEntry c u (JObj kvs)) ''obs'' = field (refresh ''obs'' u (JObj zkvs)) ''obs''"
    unfolding fill_libEntry_def y z ..
  also have "\<dots> = (if nullish (field u ''obs'') then field (JObj zkvs) ''obs'' else field u ''obs'')"
    by (rule field_refresh_same)
  also have "field (JObj zkvs) ''obs'' = field (JObj ykvs) ''obs''"
    unfolding z[symmetric] by (simp add: field_refresh_other)
  also have "field (JObj ykvs) ''obs'' = field (JObj kvs) ''obs''"
    unfolding y[symmetric] by (simp add: update_conv')
  finally show ?thesis .
qed

text \<open>
  C6, as the code has it. Let the chunk of a unit \<open>u\<close> have the registry entry \<open>l\<close> and
  let the iteration succeed (no conflict, no failed request). The variants of the
  registry entry become the union of its variants and the unit's. On a cache hit that
  is the only change: \<open>meaning\<close>, \<open>obs\<close> and the id stay as they are. Only on the
  creation path (the registry id is blank) are \<open>meaning\<close> and \<open>obs\<close> taken from the
  unit, each when the unit has it (not \<^verbatim>\<open>null\<close>, not missing).
\<close>

theorem registered_chunk_is_updated:
  assumes "libMap_ok st"
    and "inLib_of st u = Some (i, l)"
    and "chunk_of u \<noteq> []"
    and "step cfg h d k u st = Inr st'"
  shows "variants_of (libEntries st' ! i) = union_variants (variants_of l) (variants_of u)
     \<and> (if has_id (Some (i, l))
         then field (libEntries st' ! i) ''meaning'' = field l ''meaning''
              \<and> field (libEntries st' ! i) ''obs'' = field l ''obs''
              \<and> id_of (libEntries st' ! i) = id_of l
         else field (libEntries st' ! i) ''meaning''
                = (if nullish (field u ''meaning'') then field l ''meaning'' else field u ''meaning'')
              \<and> field (libEntries st' ! i) ''obs''
                = (if nullish (field u ''obs'') then field l ''obs'' else field u ''obs''))"
proof -
  from inLib_ofD[OF assms(1,2)] have i: "i < length (libEntries st)"
    and cl: "chunk_of l = chunk_of u" by blast+
  from cl assms(3) chunk_of_obj[of l] obtain lkvs where l: "l = JObj lkvs" by auto
  show ?thesis
  proof (cases rule: step_cases[where st = st and u = u and cfg = cfg and h = h and d = d])
    case conflict
    with assms(4) show ?thesis by (simp add: step_conflict)
  next
    case (hit i' l')
    with assms(2) have [simp]: "i' = i" "l' = l" by simp_all
    from assms(4) hit have "libEntries st' = (libEntries st)
        [i := set_prop ''variants'' (JArr (union_variants (variants_of l) (variants_of u))) l]"
      by (auto simp: step_hit)
    with i hit(3) show ?thesis
      by (simp add: field_set_prop_other id_of_set_prop)
         (simp add: l variants_of_update_variants)
  next
    case (failed err cs)
    with assms(4) show ?thesis by (simp add: step_miss_error)
  next
    case (new c cs)
    with assms(2) show ?thesis by simp
  next
    case (old i' l' c cs)
    with assms(2) have [simp]: "i' = i" "l' = l" by simp_all
    from assms(4) old have "libEntries st' = (libEntries st)[i := fill_libEntry c u l]"
      by (auto simp: step_miss_old)
    with i old(3) show ?thesis
      by (simp add: l field_fill_libEntry_meaning field_fill_libEntry_obs variants_of_fill_libEntry)
  qed
qed

theorem registered_chunk_is_updated_witness:
  "inLib_of (demo_state [unit_with_meaning ''casa'' [] [jstr ''lar''] ''home'']
               [unit_with_meaning ''casa'' [] [jstr ''casa''] ''house''])
      (unit_with_meaning ''casa'' [] [jstr ''lar''] ''home'')
     = Some (0, unit_with_meaning ''casa'' [] [jstr ''casa''] ''house'')
   \<and> (\<exists>st'. step demo_config demo_host (utf16 ''deck'') 0 (unit_with_meaning ''casa'' [] [jstr ''lar''] ''home'')
              (demo_state [unit_with_meaning ''casa'' [] [jstr ''lar''] ''home'']
                 [unit_with_meaning ''casa'' [] [jstr ''casa''] ''house'']) = Inr st'
        \<and> variants_of (libEntries st' ! 0) = [jstr ''casa'', jstr ''lar'']
        \<and> field (libEntries st' ! 0) ''meaning'' = Some (jstr ''home'')
        \<and> field (libEntries st' ! 0) ''obs'' = None)"
proof -
  let ?u = "unit_with_meaning ''casa'' [] [jstr ''lar''] ''home''"
  let ?l = "unit_with_meaning ''casa'' [] [jstr ''casa''] ''house''"
  let ?S = "demo_state [?u] [?l]"
  have 1: "libMap_ok ?S" by code_simp
  have 2: "inLib_of ?S ?u = Some (0, ?l)" by code_simp
  have 3: "chunk_of ?u \<noteq> []" by code_simp
  have "case step demo_config demo_host (utf16 ''deck'') 0 ?u ?S of Inl failure \<Rightarrow> False | Inr st' \<Rightarrow> True"
    by code_simp
  then obtain st' where 4: "step demo_config demo_host (utf16 ''deck'') 0 ?u ?S = Inr st'"
    by (auto split: sum.splits)
  have 5: "has_id (Some (0, ?l)) = False" by code_simp
  have 6: "union_variants (variants_of ?l) (variants_of ?u) = [jstr ''casa'', jstr ''lar'']"
    "(if nullish (field ?u ''meaning'') then field ?l ''meaning'' else field ?u ''meaning'')
       = Some (jstr ''home'')"
    "(if nullish (field ?u ''obs'') then field ?l ''obs'' else field ?u ''obs'') = None"
    by code_simp+
  from registered_chunk_is_updated[OF 1 2 3 4]
  have "variants_of (libEntries st' ! 0) = [jstr ''casa'', jstr ''lar'']
        \<and> field (libEntries st' ! 0) ''meaning'' = Some (jstr ''home'')
        \<and> field (libEntries st' ! 0) ''obs'' = None"
    unfolding 5 6 by (simp only: if_False)
  with 2 4 show ?thesis by blast
qed

text \<open>
  C6 as stated has \<open>meaning\<close> and \<open>obs\<close> refreshed on every encounter, cache hits
  included. On a cache hit the registry keeps its own \<open>meaning\<close>, whatever the unit
  supplies.
\<close>

theorem cache_hit_keeps_registry_meaning:
  "field (unit_with_meaning ''casa'' [] [jstr ''lar''] ''home'') ''meaning'' = Some (jstr ''home'')
   \<and> has_id (inLib_of (demo_state [unit_with_meaning ''casa'' [] [jstr ''lar''] ''home'']
                          [unit_with_meaning ''casa'' ''Y999'' [jstr ''casa''] ''house''])
               (unit_with_meaning ''casa'' [] [jstr ''lar''] ''home''))
   \<and> (case step demo_config demo_host (utf16 ''deck'') 0 (unit_with_meaning ''casa'' [] [jstr ''lar''] ''home'')
              (demo_state [unit_with_meaning ''casa'' [] [jstr ''lar''] ''home'']
                 [unit_with_meaning ''casa'' ''Y999'' [jstr ''casa''] ''house'']) of
         Inl failure \<Rightarrow> False
       | Inr st' \<Rightarrow>
           libEntries st' = [unit_with_meaning ''casa'' ''Y999'' [jstr ''casa'', jstr ''lar''] ''house'']
           \<and> field (libEntries st' ! 0) ''meaning'' = Some (jstr ''house''))"
  by code_simp

section \<open>The end of a successful run\<close>

lemma set_insert_entry: "set (insert_entry cmp a bs) = insert a (set bs)"
  by (induction bs) auto

lemma sorted_insert_entry:
  assumes "consistent_compare cmp" "sorted_wrt (chunk_le cmp) bs"
  shows "sorted_wrt (chunk_le cmp) (insert_entry cmp a bs)"
  using assms(2)
proof (induction bs)
  case Nil
  then show ?case by simp
next
  case (Cons b bs)
  from assms(1) have total: "\<And>x y. cmp x y \<le> 0 \<or> cmp y x \<le> 0"
    and trans: "\<And>x y z. cmp x y \<le> 0 \<Longrightarrow> cmp y z \<le> 0 \<Longrightarrow> cmp x z \<le> 0"
    unfolding consistent_compare_def by blast+
  show ?case
  proof (cases "cmp (chunk_of a) (chunk_of b) \<le> 0")
    case True
    with Cons.prems trans have "\<forall>y\<in>set bs. chunk_le cmp a y"
      unfolding chunk_le_def by auto
    with True Cons.prems show ?thesis by (simp add: chunk_le_def)
  next
    case False
    with total have "chunk_le cmp b a" unfolding chunk_le_def by blast
    with False Cons show ?thesis by (auto simp: set_insert_entry)
  qed
qed

lemma sorted_sort_entries:
  "consistent_compare cmp \<Longrightarrow> sorted_wrt (chunk_le cmp) (sort_entries cmp es)"
  by (induction es) (simp_all add: sort_entries_def sorted_insert_entry)

lemma compare_codes_total: "compare_codes a b \<le> 0 \<or> compare_codes b a \<le> 0"
  by (induction a b rule: compare_codes.induct) auto

lemma compare_codes_trans:
  "compare_codes a b \<le> 0 \<Longrightarrow> compare_codes b c \<le> 0 \<Longrightarrow> compare_codes a c \<le> 0"
proof (induction a arbitrary: b c)
  case Nil
  then show ?case by (cases c) simp_all
next
  case (Cons x xs)
  then show ?case
    by (cases b; cases c) (auto split: if_splits)
qed

lemma consistent_compare_codes: "consistent_compare compare_codes"
  unfolding consistent_compare_def
  using compare_codes_total compare_codes_trans by blast

lemma step_docs:
  "step cfg h d k u st = Inr st' \<Longrightarrow> lib st' = lib st \<and> classDoc st' = classDoc st"
  by (cases rule: step_cases[where st = st and u = u and cfg = cfg and h = h and d = d])
     (auto simp: step_conflict step_hit step_miss_error step_miss_new step_miss_old)

lemma loop_docs:
  "loop cfg h d k us st = Inr st' \<Longrightarrow> lib st' = lib st \<and> classDoc st' = classDoc st"
  by (induction us arbitrary: k st) (auto split: sum.splits dest: step_docs)

lemma step_dry_files:
  "DRY_RUN cfg \<Longrightarrow> step cfg h d k u st = Inr st' \<Longrightarrow>
   class_file st' = class_file st \<and> lib_file st' = lib_file st"
  by (cases rule: step_cases[where st = st and u = u and cfg = cfg and h = h and d = d])
     (auto simp: step_conflict step_hit step_miss_error step_miss_new step_miss_old)

lemma loop_dry_files:
  "DRY_RUN cfg \<Longrightarrow> loop cfg h d k us st = Inr st' \<Longrightarrow>
   class_file st' = class_file st \<and> lib_file st' = lib_file st"
  by (induction us arbitrary: k st) (auto split: sum.splits dest: step_dry_files)

lemma validateLibrary_obj:
  "validateLibrary raw = Inr l \<Longrightarrow> \<exists>kvs. l = JObj kvs"
  by (cases raw) (auto simp: validateLibrary_def emptyLibrary_def isArray_def split: if_splits sum.splits)

lemma loadLibrary_obj: "\<exists>kvs. loadLibrary file = JObj kvs"
  by (auto simp: loadLibrary_def loadJson_def emptyLibrary_def
      split: option.splits sum.splits dest: validateLibrary_obj)

lemma validateClassDoc_obj: "validateClassDoc doc = Inr u \<Longrightarrow> \<exists>kvs. doc = JObj kvs"
  by (cases doc) (auto simp: validateClassDoc_def truthy_o_def split: if_splits)

lemma entries_with_entries: "arr_of (field (with_entries (JObj kvs) es) ''entries'') = es"
  by (simp add: with_entries_def update_conv' arr_of_def)

lemma init_state_fields [simp]:
  "class_file (init_state w doc l cs) = class_file w"
  "lib_file (init_state w doc l cs) = lib_file w"
  "calls (init_state w doc l cs) = cs"
  "classDoc (init_state w doc l cs) = doc"
  "classEntries (init_state w doc l cs) = arr_of (field doc ''entries'')"
  "lib (init_state w doc l cs) = l"
  "libEntries (init_state w doc l cs) = arr_of (field l ''entries'')"
  "libMap (init_state w doc l cs) = indexByChunk (arr_of (field l ''entries''))"
  "skippedExisting (init_state w doc l cs) = []"
  "created (init_state w doc l cs) = 0"
  by (simp_all add: init_state_def)

lemma main_success:
  assumes "main cfg h w = Inr st"
  obtains doc d cs st1 where
    "class_file w = Some doc" "validateClassDoc doc = Inr ()"
    "resolve_deck cfg h (str_of (field doc ''class'') @ utf16 ''_V'') (calls w) = (Inr d, cs)"
    "loop cfg h (deck_id d) 0 (arr_of (field doc ''entries''))
       (init_state w doc (loadLibrary (lib_file w)) cs) = Inr st1"
    "st = finish cfg h st1"
  using assms
  by (auto simp: main_def loadJson_def Let_def split: option.splits sum.splits prod.splits)


text \<open>
  C7, as the code has it. After a successful run the registry entries in memory are
  sorted ascending by chunk under the comparison of the host, provided that comparison
  is a consistent order (as \<^verbatim>\<open>localeCompare\<close> is). Outside a dry run both files have
  then been saved once more: the class file holds the class entries and the library
  file holds the sorted registry entries. In a dry run (\<^verbatim>\<open>DRY_RUN=1\<close>) the final save is
  skipped too, and both files are what they were before the run.
\<close>

theorem successful_run_sorts_and_saves:
  assumes "main cfg h w = Inr st"
    and "consistent_compare (localeCompare h)"
  shows "sorted_wrt (chunk_le (localeCompare h)) (libEntries st)
     \<and> (if DRY_RUN cfg
         then class_file st = class_file w \<and> lib_file st = lib_file w
         else class_file st = Some (with_entries (classDoc st) (classEntries st))
              \<and> lib_file st = Some (with_entries (lib st) (libEntries st)))
     \<and> arr_of (field (with_entries (classDoc st) (classEntries st)) ''entries'') = classEntries st
     \<and> arr_of (field (with_entries (lib st) (libEntries st)) ''entries'') = libEntries st"
proof -
  from assms(1) obtain doc d cs st1 where
    "class_file w = Some doc"
    and doc: "validateClassDoc doc = Inr ()"
    and "resolve_deck cfg h (str_of (field doc ''class'') @ utf16 ''_V'') (calls w) = (Inr d, cs)"
    and l: "loop cfg h (deck_id d) 0 (arr_of (field doc ''entries''))
       (init_state w doc (loadLibrary (lib_file w)) cs) = Inr st1"
    and st: "st = finish cfg h st1"
    by (rule main_success)
  from loop_docs[OF l] have docs: "lib st1 = loadLibrary (lib_file w)" "classDoc st1 = doc"
    by simp_all
  from validateClassDoc_obj[OF doc] obtain dkvs where d: "classDoc st1 = JObj dkvs"
    unfolding docs by blast
  from loadLibrary_obj obtain lkvs where lk: "lib st1 = JObj lkvs"
    unfolding docs by blast
  have sorted: "sorted_wrt (chunk_le (localeCompare h)) (libEntries st)"
    unfolding st libEntries_finish by (rule sorted_sort_entries[OF assms(2)])
  have files: "if DRY_RUN cfg
         then class_file st = class_file w \<and> lib_file st = lib_file w
         else class_file st = Some (with_entries (classDoc st) (classEntries st))
              \<and> lib_file st = Some (with_entries (lib st) (libEntries st))"
  proof (cases "DRY_RUN cfg")
    case True
    from loop_dry_files[OF True l] True show ?thesis
      by (simp add: st finish_def Let_def)
  next
    case False
    then show ?thesis by (simp add: st finish_def Let_def)
  qed
  have "classDoc st = JObj dkvs" "lib st = JObj lkvs"
    using d lk by (simp_all add: st finish_def Let_def)
  then have "arr_of (field (with_entries (classDoc st) (classEntries st)) ''entries'') = classEntries st"
    "arr_of (field (with_entries (lib st) (libEntries st)) ''entries'') = libEntries st"
    by (simp_all add: entries_with_entries)
  with sorted files show ?thesis by blast
qed

theorem successful_run_sorts_and_saves_witness:
  "consistent_compare (localeCompare demo_host)
   \<and> (\<exists>st. main demo_config demo_host
              \<lparr>class_file = Some (class_json [unit_json ''sol'' [] [], unit_json ''casa'' [] []]),
               lib_file = None, calls = []\<rparr> = Inr st
        \<and> map chunk_of (libEntries st) = [utf16 ''casa'', utf16 ''sol'']
        \<and> sorted_wrt (chunk_le (localeCompare demo_host)) (libEntries st)
        \<and> lib_file st = Some (with_entries (lib st) (libEntries st))
        \<and> arr_of (field (with_entries (lib st) (libEntries st)) ''entries'') = libEntries st)"
proof -
  let ?w = "\<lparr>class_file = Some (class_json [unit_json ''sol'' [] [], unit_json ''casa'' [] []]),
             lib_file = None, calls = []\<rparr>"
  have lc: "localeCompare demo_host = compare_codes" by (simp add: demo_host_def)
  have 2: "consistent_compare (localeCompare demo_host)"
    unfolding lc by (rule consistent_compare_codes)
  have "case main demo_config demo_host ?w of
          Inl failure \<Rightarrow> False
        | Inr st \<Rightarrow> map chunk_of (libEntries st) = [utf16 ''casa'', utf16 ''sol'']"
    by code_simp
  then obtain st where 1: "main demo_config demo_host ?w = Inr st"
    and 3: "map chunk_of (libEntries st) = [utf16 ''casa'', utf16 ''sol'']"
    by (auto split: sum.splits)
  have dry: "DRY_RUN demo_config = False" by code_simp
  from successful_run_sorts_and_saves[OF 1 2]
  have "sorted_wrt (chunk_le (localeCompare demo_host)) (libEntries st)
        \<and> lib_file st = Some (with_entries (lib st) (libEntries st))
        \<and> arr_of (field (with_entries (lib st) (libEntries st)) ''entries'') = libEntries st"
    unfolding dry by (simp only: if_False)
  then have 4: "sorted_wrt (chunk_le (localeCompare demo_host)) (libEntries st)"
    and 5: "lib_file st = Some (with_entries (lib st) (libEntries st))"
    and 6: "arr_of (field (with_entries (lib st) (libEntries st)) ''entries'') = libEntries st"
    by blast+
  show ?thesis
    using 1 2 3 4 5 6 by (intro conjI exI[of _ st]) assumption+
qed

text \<open>
  C7 as stated has both stores saved after every successful run. A dry run that
  succeeds sorts the registry in memory and writes nothing: the library file is still
  missing afterwards and the class file still has the empty ids.
\<close>

theorem dry_run_is_not_saved:
  "(case main dry_config demo_host
           \<lparr>class_file = Some (class_json [unit_json ''sol'' [] [], unit_json ''casa'' [] []]),
            lib_file = None, calls = []\<rparr> of
      Inl failure \<Rightarrow> False
    | Inr st \<Rightarrow>
        map chunk_of (libEntries st) = [utf16 ''casa'', utf16 ''sol'']
        \<and> created st = 2
        \<and> lib_file st = None
        \<and> class_file st = Some (class_json [unit_json ''sol'' [] [], unit_json ''casa'' [] []]))"
  by code_simp

section \<open>Loading the two documents\<close>

lemma validateLibrary_cases:
  "validateLibrary raw = Inr raw \<or> validateLibrary raw = Inr emptyLibrary
   \<or> (\<exists>err. validateLibrary raw = Inl err)"
  by (auto simp: validateLibrary_def split: sum.splits)



section \<open>Trimmed keys in validation, raw keys in the lookup\<close>

lemma validateClassEntries_distinct:
  "validateClassEntries i seen es = Inr () \<Longrightarrow>
   distinct (map (\<lambda>e. trim (chunk_of e)) es) \<and> (\<forall>e\<in>set es. trim (chunk_of e) \<notin> set seen)"
proof (induction es arbitrary: i seen)
  case Nil
  then show ?case by simp
next
  case (Cons e es)
  from Cons.prems have k: "trim (chunk_of e) \<notin> set seen"
    and r: "validateClassEntries (Suc i) (trim (chunk_of e) # seen) es = Inr ()"
    by (auto simp: Let_def split: if_splits)
  from Cons.IH[OF r] k show ?case by auto
qed

lemma validateLibraryEntries_distinct:
  "validateLibraryEntries i seen es = Inr () \<Longrightarrow>
   distinct (map (\<lambda>e. trim (chunk_of e)) es) \<and> (\<forall>e\<in>set es. trim (chunk_of e) \<notin> set seen)"
proof (induction es arbitrary: i seen)
  case Nil
  then show ?case by simp
next
  case (Cons e es)
  from Cons.prems have k: "trim (chunk_of e) \<notin> set seen"
    and r: "validateLibraryEntries (Suc i) (trim (chunk_of e) # seen) es = Inr ()"
    by (auto simp: Let_def split: if_splits)
  from Cons.IH[OF r] k show ?case by auto
qed

lemma indexByChunk_from_None:
  "map_of m c = None \<Longrightarrow> c \<notin> chunk_of ` set es \<Longrightarrow> map_of (indexByChunk_from i es m) c = None"
  by (induction es arbitrary: i m) (auto simp: update_conv')

lemma indexByChunk_None:
  "c \<notin> chunk_of ` set es \<Longrightarrow> map_of (indexByChunk es) c = None"
  by (simp add: indexByChunk_def indexByChunk_from_None)

lemma same_trimmed_chunk_unique:
  assumes "distinct (map (\<lambda>e. trim (chunk_of e)) es)" "a \<in> set es" "b \<in> set es"
    and "trim (chunk_of a) = trim (chunk_of b)"
  shows "a = b"
  using assms by (auto simp: distinct_map dest: inj_onD)

lemma validateClassDoc_entries:
  "validateClassDoc doc = Inr () \<Longrightarrow> field doc ''entries'' = Some (JArr es) \<Longrightarrow>
   validateClassEntries 0 [] es = Inr ()"
  by (auto simp: validateClassDoc_def arr_of_def split: if_splits)

lemma loadLibrary_entries_valid:
  "validateLibraryEntries 0 [] (arr_of (field (loadLibrary file) ''entries'')) = Inr ()"
proof (cases "loadJson file")
  case (Inl err)
  then show ?thesis
    by (simp add: loadLibrary_def emptyLibrary_def arr_of_def)
next
  case (Inr raw)
  have e: "validateLibraryEntries 0 [] (arr_of (field emptyLibrary ''entries'')) = Inr ()"
    by (simp add: emptyLibrary_def arr_of_def)
  from validateLibrary_cases[of raw] show ?thesis
  proof (elim disjE exE)
    assume v: "validateLibrary raw = Inr raw"
    show ?thesis
    proof (cases "validateLibraryEntries 0 [] (arr_of (field raw ''entries''))")
      case (Inl err)
      with v have "raw = emptyLibrary"
        by (auto simp: validateLibrary_def split: if_splits)
      with Inr v e show ?thesis
        by (simp add: loadLibrary_def)
    next
      case r: (Inr u)
      with Inr v show ?thesis
        by (simp add: loadLibrary_def)
    qed
  next
    assume "validateLibrary raw = Inr emptyLibrary"
    with Inr e show ?thesis
      by (simp add: loadLibrary_def)
  next
    fix err
    assume "validateLibrary raw = Inl err"
    with Inr e show ?thesis
      by (simp add: loadLibrary_def)
  qed
qed

lemma chunk_update_entry:
  assumes "i < length xs" "chunk_of e = chunk_of (xs ! i)"
  shows "chunk_of ` set (xs[i := e]) \<subseteq> chunk_of ` set xs"
proof
  fix c
  assume "c \<in> chunk_of ` set (xs[i := e])"
  then obtain x where x: "x \<in> set (xs[i := e])" "c = chunk_of x"
    by blast
  from x(1) set_update_subset_insert[of xs i e] have "x = e \<or> x \<in> set xs"
    by blast
  then show "c \<in> chunk_of ` set xs"
  proof
    assume "x = e"
    with x(2) assms(2) have "c = chunk_of (xs ! i)"
      by simp
    moreover from assms(1) have "xs ! i \<in> set xs"
      by (rule nth_mem)
    ultimately show ?thesis
      by blast
  next
    assume "x \<in> set xs"
    with x(2) show ?thesis
      by blast
  qed
qed

text \<open>An iteration adds no chunk to the registry but the raw chunk of its unit.\<close>

lemma step_chunks:
  assumes ok: "libMap_ok st" and s: "step cfg h d k u st = Inr st'"
  shows "chunk_of ` set (libEntries st') \<subseteq> insert (chunk_of u) (chunk_of ` set (libEntries st))"
proof (cases rule: step_cases[where st = st and u = u and cfg = cfg and h = h and d = d])
  case conflict
  with s show ?thesis by (simp add: step_conflict)
next
  case (hit i l)
  from inLib_ofD[OF ok hit(1)] have l: "i < length (libEntries st)" "l = libEntries st ! i"
    by simp_all
  let ?e = "set_prop ''variants'' (JArr (union_variants (variants_of l) (variants_of u))) l"
  from s hit have "libEntries st' = (libEntries st)[i := ?e]"
    by (auto simp: step_hit)
  moreover have "chunk_of ?e = chunk_of (libEntries st ! i)"
    by (simp add: l(2) chunk_of_set_prop)
  ultimately show ?thesis
    using chunk_update_entry[OF l(1), of ?e] by auto
next
  case (failed err cs)
  with s show ?thesis by (simp add: step_miss_error)
next
  case (new c cs)
  from s new have "libEntries st' = libEntries st @ [fill_libEntry c u (new_libEntry u)]"
    by (auto simp: step_miss_new)
  then show ?thesis
    by (auto simp: chunk_of_fill_libEntry)
next
  case (old i l c cs)
  from inLib_ofD[OF ok old(1)] have l: "i < length (libEntries st)" "l = libEntries st ! i"
    by simp_all
  from s old have "libEntries st' = (libEntries st)[i := fill_libEntry c u l]"
    by (auto simp: step_miss_old)
  moreover have "chunk_of (fill_libEntry c u l) = chunk_of (libEntries st ! i)"
    by (simp add: l(2) chunk_of_fill_libEntry)
  ultimately show ?thesis
    using chunk_update_entry[OF l(1), of "fill_libEntry c u l"] by auto
qed

lemma loop_chunks:
  "libMap_ok st \<Longrightarrow> loop cfg h d k us st = Inr st' \<Longrightarrow>
   chunk_of ` set (libEntries st') \<subseteq> chunk_of ` set us \<union> chunk_of ` set (libEntries st)"
proof (induction us arbitrary: k st)
  case Nil
  then show ?case by simp
next
  case (Cons u us)
  from Cons.prems(2) obtain st1 where 1: "step cfg h d k u st = Inr st1"
    and 2: "loop cfg h d (Suc k) us st1 = Inr st'"
    by (auto split: sum.splits)
  from libMap_ok_step[OF Cons.prems(1) 1] have ok1: "libMap_ok st1" .
  from Cons.IH[OF ok1 2] step_chunks[OF Cons.prems(1) 1] show ?case
    by auto
qed

text \<open>
  At every unit of a run, a registry entry with the raw chunk of the unit and another
  one whose chunk is the same only after trimming cannot both be there: a registry
  entry is either one of the validated library, whose trimmed chunks are distinct, or
  was appended for an earlier unit of the class document, whose trimmed chunks are
  distinct too.
\<close>

lemma raw_and_trimmed_chunk_exclude:
  assumes cls: "distinct (map (\<lambda>e. trim (chunk_of e)) us)"
    and lib: "distinct (map (\<lambda>e. trim (chunk_of e)) es)"
    and sub: "C \<subseteq> chunk_of ` set (take k us) \<union> chunk_of ` set es"
    and k: "k < length us"
    and c: "c \<in> C" "c \<noteq> chunk_of (us ! k)" "trim c = trim (chunk_of (us ! k))"
  shows "chunk_of (us ! k) \<notin> C"
proof
  assume "chunk_of (us ! k) \<in> C"
  have early: False if "x \<in> chunk_of ` set (take k us)" "trim x = trim (chunk_of (us ! k))" for x
  proof -
    from that(1) obtain j where j: "j < k" "x = chunk_of (us ! j)"
      using k by (auto simp: in_set_conv_nth)
    from j(1) k have "j < length us" "j \<noteq> k" by simp_all
    with cls k have "trim (chunk_of (us ! j)) \<noteq> trim (chunk_of (us ! k))"
      by (auto simp: distinct_conv_nth)
    with that(2) j(2) show False by simp
  qed
  from sub \<open>chunk_of (us ! k) \<in> C\<close>
  have "chunk_of (us ! k) \<in> chunk_of ` set (take k us) \<or> chunk_of (us ! k) \<in> chunk_of ` set es"
    by blast
  with early[of "chunk_of (us ! k)"] obtain a where a: "a \<in> set es" "chunk_of a = chunk_of (us ! k)"
    by auto
  from sub c(1) have "c \<in> chunk_of ` set (take k us) \<or> c \<in> chunk_of ` set es"
    by blast
  with early[of c] c(3) obtain b where b: "b \<in> set es" "chunk_of b = c"
    by auto
  from a(2) b(2) c(3) have "trim (chunk_of a) = trim (chunk_of b)"
    by simp
  from same_trimmed_chunk_unique[OF lib a(1) b(1) this] a(2) b(2) c(2) show False
    by simp
qed

text \<open>
  C10. Validation compares trimmed chunks: a class document two of whose entries have
  different chunks that are equal after trimming is rejected. The lookup uses the raw
  chunk. In a run of the program on a class document that passed validation, take the
  state \<open>st\<close> in which the loop reaches the unit at position \<open>k\<close> (the loop has gone
  through the units before it, starting from the library as it was loaded). If the
  chunk of that unit differs from the chunk of a registry entry of \<open>st\<close> only by
  surrounding white space, the lookup finds no entry, the unit is no cache hit, and the
  iteration takes the creation path: it calls \<^verbatim>\<open>createVocabCard\<close> and, when that returns
  an identifier, appends a registry entry under the raw chunk.
\<close>

theorem trimmed_validation_raw_lookup:
  "(field bad ''entries'' = Some (JArr es) \<longrightarrow> i < j \<longrightarrow> j < length es \<longrightarrow>
      chunk_of (es ! i) \<noteq> chunk_of (es ! j) \<longrightarrow>
      trim (chunk_of (es ! i)) = trim (chunk_of (es ! j)) \<longrightarrow>
      (\<exists>err. validateClassDoc bad = Inl err))
   \<and> (validateClassDoc doc = Inr () \<longrightarrow>
      field doc ''entries'' = Some (JArr us) \<longrightarrow>
      loop cfg h d 0 (take k us) (init_state w doc (loadLibrary (lib_file w)) cs) = Inr st \<longrightarrow>
      k < length us \<longrightarrow>
      l \<in> set (libEntries st) \<longrightarrow>
      chunk_of (us ! k) \<noteq> chunk_of l \<longrightarrow>
      trim (chunk_of (us ! k)) = trim (chunk_of l) \<longrightarrow>
      inLib_of st (us ! k) = None \<and> \<not> has_id (inLib_of st (us ! k))
      \<and> step cfg h d k (us ! k) st =
          (case createVocabCard cfg h d (us ! k) (calls st) of
             (Inl err, cs') \<Rightarrow> Inl (err, world_of (st\<lparr>calls := cs'\<rparr>))
           | (Inr c, cs') \<Rightarrow>
               Inr ((if DRY_RUN cfg then (\<lambda>s. s) else persist)
                 (st\<lparr>calls := cs',
                     classEntries := (classEntries st)[k := set_prop ''id'' (JStr c) (us ! k)],
                     libEntries := libEntries st @ [fill_libEntry c (us ! k) (new_libEntry (us ! k))],
                     libMap := AList.update (chunk_of (us ! k)) (length (libEntries st)) (libMap st),
                     created := Suc (created st)\<rparr>))))"
proof (intro conjI impI)
  assume e: "field bad ''entries'' = Some (JArr es)" and ij: "i < j" "j < length es"
    and t: "trim (chunk_of (es ! i)) = trim (chunk_of (es ! j))"
  have "validateClassDoc bad \<noteq> Inr ()"
  proof
    assume "validateClassDoc bad = Inr ()"
    from validateClassEntries_distinct[OF validateClassDoc_entries[OF this e]]
    have "distinct (map (\<lambda>e. trim (chunk_of e)) es)" by simp
    with ij t show False
      by (auto simp: distinct_conv_nth)
  qed
  then show "\<exists>err. validateClassDoc bad = Inl err"
    by (cases "validateClassDoc bad") auto
next
  let ?u = "us ! k"
  let ?st0 = "init_state w doc (loadLibrary (lib_file w)) cs"
  let ?es0 = "arr_of (field (loadLibrary (lib_file w)) ''entries'')"
  assume v: "validateClassDoc doc = Inr ()"
    and e: "field doc ''entries'' = Some (JArr us)"
    and run: "loop cfg h d 0 (take k us) ?st0 = Inr st"
    and k: "k < length us"
    and l: "l \<in> set (libEntries st)"
    and ne: "chunk_of ?u \<noteq> chunk_of l"
    and t: "trim (chunk_of ?u) = trim (chunk_of l)"
  from validateClassEntries_distinct[OF validateClassDoc_entries[OF v e]]
  have cls: "distinct (map (\<lambda>e. trim (chunk_of e)) us)" by simp
  from validateLibraryEntries_distinct[OF loadLibrary_entries_valid[of "lib_file w"]]
  have lib: "distinct (map (\<lambda>e. trim (chunk_of e)) ?es0)" by simp
  have ok0: "libMap_ok ?st0" by (rule libMap_ok_init)
  from libMap_ok_loop[OF ok0 run] have ok: "libMap_ok st" .
  from loop_chunks[OF ok0 run]
  have sub: "chunk_of ` set (libEntries st) \<subseteq> chunk_of ` set (take k us) \<union> chunk_of ` set ?es0"
    by simp
  from l have c1: "chunk_of l \<in> chunk_of ` set (libEntries st)" by (rule imageI)
  from ne have c2: "chunk_of l \<noteq> chunk_of ?u" by (rule not_sym)
  from t have c3: "trim (chunk_of l) = trim (chunk_of ?u)" by (rule sym)
  from raw_and_trimmed_chunk_exclude[OF cls lib sub k c1 c2 c3]
  have notin: "chunk_of ?u \<notin> chunk_of ` set (libEntries st)" .
  have "map_of (libMap st) (chunk_of ?u) = None"
  proof (cases "map_of (libMap st) (chunk_of ?u)")
    case None
    then show ?thesis .
  next
    case (Some p)
    from libMap_okD[OF ok Some]
    have "p < length (libEntries st)" "chunk_of (libEntries st ! p) = chunk_of ?u"
      by simp_all
    then have "chunk_of ?u \<in> chunk_of ` set (libEntries st)"
      by (metis imageI nth_mem)
    with notin show ?thesis by simp
  qed
  then show n: "inLib_of st ?u = None" by (simp add: inLib_of_def)
  then show "\<not> has_id (inLib_of st ?u)" by (simp add: has_id_def)
  obtain r cs' where c: "createVocabCard cfg h d ?u (calls st) = (r, cs')"
    by (cases "createVocabCard cfg h d ?u (calls st)")
  show "step cfg h d k ?u st =
          (case createVocabCard cfg h d ?u (calls st) of
             (Inl err, cs') \<Rightarrow> Inl (err, world_of (st\<lparr>calls := cs'\<rparr>))
           | (Inr c, cs') \<Rightarrow>
               Inr ((if DRY_RUN cfg then (\<lambda>s. s) else persist)
                 (st\<lparr>calls := cs',
                     classEntries := (classEntries st)[k := set_prop ''id'' (JStr c) ?u],
                     libEntries := libEntries st @ [fill_libEntry c ?u (new_libEntry ?u)],
                     libMap := AList.update (chunk_of ?u) (length (libEntries st)) (libMap st),
                     created := Suc (created st)\<rparr>)))"
  proof (cases r)
    case (Inl err)
    with c n show ?thesis
      by (simp add: step_miss_error id_conflict_def has_id_def)
  next
    case (Inr cid)
    with c n show ?thesis
      by (simp add: step_miss_new)
  qed
qed

theorem trimmed_validation_raw_lookup_witness:
  "validateClassDoc
      (class_json [unit_json ''casa'' [] [],
                   JObj [(''chunk'', JStr (utf16 ''casa'' @ [0x00A0])), (''id'', JStr []),
                         (''variants'', JArr [])]])
     = Inl (DuplicateChunk (utf16 ''casa''))
   \<and> validateClassDoc (class_json [unit_json ''casa '' [] [], unit_json '' sol'' [] []]) = Inr ()
   \<and> (\<exists>st st'.
        loop demo_config demo_host (utf16 ''deck'') 0 [unit_json ''casa '' [] []]
          (init_state
             \<lparr>class_file = Some (class_json [unit_json ''casa '' [] [], unit_json '' sol'' [] []]),
              lib_file = Some (library_json [unit_json ''casa'' ''Y999'' [],
                                             unit_json ''sol'' ''Z111'' []]),
              calls = []\<rparr>
             (class_json [unit_json ''casa '' [] [], unit_json '' sol'' [] []])
             (library_json [unit_json ''casa'' ''Y999'' [], unit_json ''sol'' ''Z111'' []])
             [GET_decks]) = Inr st
        \<and> map chunk_of (libEntries st) = [utf16 ''casa'', utf16 ''sol'', utf16 ''casa '']
        \<and> validateLibraryEntries 0 [] (libEntries st) = Inl (LibDuplicateChunk (utf16 ''casa''))
        \<and> inLib_of st (unit_json '' sol'' [] []) = None
        \<and> step demo_config demo_host (utf16 ''deck'') 1 (unit_json '' sol'' [] []) st = Inr st'
        \<and> map chunk_of (libEntries st')
            = [utf16 ''casa'', utf16 ''sol'', utf16 ''casa '', utf16 '' sol'']
        \<and> created st' = 2)"
proof -
  let ?es = "[unit_json ''casa'' [] [],
              JObj [(''chunk'', JStr (utf16 ''casa'' @ [0x00A0])), (''id'', JStr []),
                    (''variants'', JArr [])]]"
  let ?bad = "class_json ?es"
  let ?a = "unit_json ''casa '' [] []"
  let ?u = "unit_json '' sol'' [] []"
  let ?us = "[?a, ?u]"
  let ?doc = "class_json ?us"
  let ?l = "unit_json ''sol'' ''Z111'' []"
  let ?lib = "library_json [unit_json ''casa'' ''Y999'' [], ?l]"
  let ?w = "\<lparr>class_file = Some ?doc, lib_file = Some ?lib, calls = []\<rparr>"
  let ?d = "utf16 ''deck''"
  let ?S = "init_state ?w ?doc ?lib [GET_decks]"
  have a: "field ?bad ''entries'' = Some (JArr ?es)" "(0::nat) < 1" "1 < length ?es"
    "chunk_of (?es ! 0) \<noteq> chunk_of (?es ! 1)" "trim (chunk_of (?es ! 0)) = trim (chunk_of (?es ! 1))"
    by code_simp+
  have b: "validateClassDoc ?doc = Inr ()" "field ?doc ''entries'' = Some (JArr ?us)"
    "1 < length ?us" "chunk_of (?us ! 1) \<noteq> chunk_of ?l" "trim (chunk_of (?us ! 1)) = trim (chunk_of ?l)"
    by code_simp+
  have ld: "loadLibrary (lib_file ?w) = ?lib" by code_simp
  have tk: "take 1 ?us = [?a]" "?us ! 1 = ?u" by simp_all
  have "case loop demo_config demo_host ?d 0 [?a] ?S of
          Inl failure \<Rightarrow> False
        | Inr st \<Rightarrow>
            map chunk_of (libEntries st) = [utf16 ''casa'', utf16 ''sol'', utf16 ''casa '']
            \<and> validateLibraryEntries 0 [] (libEntries st) = Inl (LibDuplicateChunk (utf16 ''casa''))
            \<and> ?l \<in> set (libEntries st)
            \<and> (case step demo_config demo_host ?d 1 ?u st of
                  Inl failure \<Rightarrow> False
                | Inr st' \<Rightarrow>
                    map chunk_of (libEntries st')
                      = [utf16 ''casa'', utf16 ''sol'', utf16 ''casa '', utf16 '' sol'']
                    \<and> created st' = 2)"
    by code_simp
  then obtain st st' where run: "loop demo_config demo_host ?d 0 [?a] ?S = Inr st"
    and 1: "map chunk_of (libEntries st) = [utf16 ''casa'', utf16 ''sol'', utf16 ''casa '']"
    and 2: "validateLibraryEntries 0 [] (libEntries st) = Inl (LibDuplicateChunk (utf16 ''casa''))"
    and l: "?l \<in> set (libEntries st)"
    and 3: "step demo_config demo_host ?d 1 ?u st = Inr st'"
    and 4: "map chunk_of (libEntries st')
              = [utf16 ''casa'', utf16 ''sol'', utf16 ''casa '', utf16 '' sol'']"
    and 5: "created st' = 2"
    by (auto split: sum.splits)
  from run have run': "loop demo_config demo_host ?d 0 (take 1 ?us)
                         (init_state ?w ?doc (loadLibrary (lib_file ?w)) [GET_decks]) = Inr st"
    unfolding ld tk .
  note t = trimmed_validation_raw_lookup
    [of ?bad ?es 0 1 ?doc ?us demo_config demo_host ?d 1 ?w "[GET_decks]" st ?l]
  from t a have "\<exists>err. validateClassDoc ?bad = Inl err" by blast
  moreover have "case validateClassDoc ?bad of
                   Inl err \<Rightarrow> err = DuplicateChunk (utf16 ''casa'') | Inr u \<Rightarrow> True"
    by code_simp
  ultimately have 6: "validateClassDoc ?bad = Inl (DuplicateChunk (utf16 ''casa''))" by auto
  from t b run' l have "inLib_of st (?us ! 1) = None" by blast
  then have 7: "inLib_of st ?u = None" unfolding tk .
  show ?thesis
    using 6 b(1) run 1 2 7 3 4 5 by (intro conjI exI[of _ st] exI[of _ st']) assumption+
qed

section \<open>Running the program twice\<close>

text \<open>
  C2 at an input on which the code breaks it. The class plan has the chunk \<open>casa\<close>
  followed by a space; the library has \<open>casa\<close>. Both files pass validation. The first run
  finds no entry under the raw chunk, creates a card and appends a second registry
  entry, so the library it saves has two chunks that are equal after trimming. The
  second run starts from the files and the service as the first run left them:
  \<^verbatim>\<open>validateLibrary\<close> throws on the duplicate, \<^verbatim>\<open>main\<close> falls back to the empty library,
  and the unit, which is in the library file with its id, gets a second card and a new
  id; the entry \<open>casa\<close> with id \<open>Y999\<close> is gone from the library that is saved.
\<close>

theorem rerun_with_padded_chunk_creates_again:
  "validateClassDoc (class_json [unit_json ''casa '' [] [jstr ''casa'']]) = Inr ()
   \<and> validateLibrary (library_json [unit_json ''casa'' ''Y999'' [jstr ''casa'']])
       = Inr (library_json [unit_json ''casa'' ''Y999'' [jstr ''casa'']])
   \<and> (case main demo_config demo_host padded_chunk_world of
         Inl failure \<Rightarrow> False
       | Inr st1 \<Rightarrow>
           created st1 = 1
           \<and> classEntries st1 = [unit_json ''casa '' ''card++'' [jstr ''casa'']]
           \<and> libEntries st1 = [unit_json ''casa'' ''Y999'' [jstr ''casa''],
                                unit_json ''casa '' ''card++'' [jstr ''casa'']]
           \<and> lib_file st1 = Some (library_json (libEntries st1))
           \<and> class_file st1 = Some (class_json (classEntries st1))
           \<and> validateLibrary (library_json (libEntries st1)) = Inl (LibDuplicateChunk (utf16 ''casa''))
           \<and> (case main demo_config demo_host (world_of st1) of
                 Inl failure \<Rightarrow> False
               | Inr st2 \<Rightarrow>
                   created st2 = 1
                   \<and> skippedExisting st2 = []
                   \<and> length (calls st2) = length (calls st1) + 2
                   \<and> classEntries st2 = [unit_json ''casa '' ''card++++'' [jstr ''casa'']]
                   \<and> libEntries st2 = [unit_json ''casa '' ''card++++'' [jstr ''casa'']]
                   \<and> lib_file st2 = Some (library_json (libEntries st2))))"
  by code_simp

theorem rerun_with_padded_chunk_creates_again_witness:
  "\<exists>st1 st2. main demo_config demo_host padded_chunk_world = Inr st1
     \<and> main demo_config demo_host (world_of st1) = Inr st2
     \<and> created st2 = 1
     \<and> map id_of (classEntries st1) = [utf16 ''card++'']
     \<and> map id_of (classEntries st2) = [utf16 ''card++++'']"
proof -
  from rerun_with_padded_chunk_creates_again
  obtain st1 where 1: "main demo_config demo_host padded_chunk_world = Inr st1"
    and c1: "classEntries st1 = [unit_json ''casa '' ''card++'' [jstr ''casa'']]"
    and r: "case main demo_config demo_host (world_of st1) of
              Inl failure \<Rightarrow> False
            | Inr st2 \<Rightarrow> created st2 = 1
                \<and> skippedExisting st2 = []
                \<and> length (calls st2) = length (calls st1) + 2
                \<and> classEntries st2 = [unit_json ''casa '' ''card++++'' [jstr ''casa'']]
                \<and> libEntries st2 = [unit_json ''casa '' ''card++++'' [jstr ''casa'']]
                \<and> lib_file st2 = Some (library_json (libEntries st2))"
    by (cases "main demo_config demo_host padded_chunk_world") auto
  from r obtain st2 where 2: "main demo_config demo_host (world_of st1) = Inr st2"
    and c2: "created st2 = 1" "classEntries st2 = [unit_json ''casa '' ''card++++'' [jstr ''casa'']]"
    by (cases "main demo_config demo_host (world_of st1)") auto
  have i: "id_of (unit_json ''casa '' ''card++'' [jstr ''casa'']) = utf16 ''card++''"
    "id_of (unit_json ''casa '' ''card++++'' [jstr ''casa'']) = utf16 ''card++++''"
    by code_simp+
  have m: "map id_of (classEntries st1) = [utf16 ''card++'']" "map id_of (classEntries st2) = [utf16 ''card++++'']"
    unfolding c1 c2 by (simp_all only: list.map i)
  have "main demo_config demo_host padded_chunk_world = Inr st1
     \<and> main demo_config demo_host (world_of st1) = Inr st2
     \<and> created st2 = 1
     \<and> map id_of (classEntries st1) = [utf16 ''card++'']
     \<and> map id_of (classEntries st2) = [utf16 ''card++++'']"
    using 1 2 c2(1) m by (intro conjI) assumption+
  then show ?thesis by - (rule exI, rule exI, assumption)
qed

section \<open>A second run after a successful first run\<close>

lemma validateClassEntries_iff:
  "validateClassEntries i seen es = Inr () \<longleftrightarrow>
     list_all entry_ok es \<and> distinct (map (\<lambda>e. trim (chunk_of e)) es)
     \<and> (\<forall>e\<in>set es. trim (chunk_of e) \<notin> set seen)"
proof (induction es arbitrary: i seen)
  case Nil
  show ?case by simp
next
  case (Cons e es)
  have "validateClassEntries i seen (e # es) = Inr () \<longleftrightarrow>
        entry_ok e \<and> trim (chunk_of e) \<notin> set seen
        \<and> validateClassEntries (Suc i) (trim (chunk_of e) # seen) es = Inr ()"
    by (auto simp: entry_ok_def Let_def)
  also have "\<dots> \<longleftrightarrow> entry_ok e \<and> trim (chunk_of e) \<notin> set seen
        \<and> list_all entry_ok es \<and> distinct (map (\<lambda>e. trim (chunk_of e)) es)
        \<and> (\<forall>x\<in>set es. trim (chunk_of x) \<notin> set (trim (chunk_of e) # seen))"
    by (simp only: Cons.IH)
  also have "\<dots> \<longleftrightarrow> list_all entry_ok (e # es)
        \<and> distinct (map (\<lambda>e. trim (chunk_of e)) (e # es))
        \<and> (\<forall>x\<in>set (e # es). trim (chunk_of x) \<notin> set seen)"
    by (simp add: image_iff) metis
  finally show ?case .
qed

lemma validateClassDoc_iff:
  "validateClassDoc doc = Inr () \<longleftrightarrow>
     truthy_o (field doc ''class'') \<and> is_string (field doc ''class'')
     \<and> isArray (field doc ''entries'')
     \<and> list_all entry_ok (arr_of (field doc ''entries''))
     \<and> distinct (map (\<lambda>e. trim (chunk_of e)) (arr_of (field doc ''entries'')))"
  by (cases doc) (auto simp: validateClassDoc_def validateClassEntries_iff truthy_o_def)

lemma entry_ok_set_id: "entry_ok e \<Longrightarrow> entry_ok (set_prop ''id'' (JStr s) e)"
  by (cases e) (auto simp: entry_ok_def update_conv' is_string_def)

lemma entry_ok_obj: "entry_ok e \<Longrightarrow> \<exists>kvs. e = JObj kvs"
  by (cases e) (auto simp: entry_ok_def truthy_o_def)

lemma entry_ok_chunk: "entry_ok e \<Longrightarrow> chunk_of e \<noteq> []"
  by (auto simp: entry_ok_def chunk_of_def str_of_def truthy_o_def is_string_def
      split: option.splits json.splits)

lemma entry_ok_id_field: "entry_ok e \<Longrightarrow> field e ''id'' = Some (JStr (id_of e))"
  by (auto simp: entry_ok_def id_of_def str_of_def is_string_def split: option.splits json.splits)

lemma set_id_same: "entry_ok e \<Longrightarrow> set_prop ''id'' (JStr (id_of e)) e = e"
proof -
  assume ok: "entry_ok e"
  from entry_ok_obj[OF ok] obtain kvs where e: "e = JObj kvs" by blast
  from entry_ok_id_field[OF ok] have "map_of kvs ''id'' = Some (JStr (id_of e))"
    by (simp add: e)
  then show ?thesis by (simp add: e update_triv)
qed

lemma distinct_trim_chunks:
  "distinct (map (\<lambda>e. trim (chunk_of e)) es) \<Longrightarrow> distinct (map chunk_of es)"
  by (simp add: distinct_map inj_on_def)


lemma reconciled_next:
  assumes inv: "reconciled es k st" and k: "k < length es"
    and ok': "libMap_ok st'"
    and ces: "classEntries st' = (classEntries st)[k := set_prop ''id'' (JStr x) (es ! k)]"
    and len: "length (libEntries st) \<le> length (libEntries st')"
    and keep: "\<And>i. i < length (libEntries st) \<Longrightarrow>
        chunk_of (libEntries st' ! i) = chunk_of (libEntries st ! i)
        \<and> (chunk_of (libEntries st ! i) \<noteq> chunk_of (es ! k) \<longrightarrow>
             id_of (libEntries st' ! i) = id_of (libEntries st ! i))"
    and new: "\<exists>i<length (libEntries st').
        chunk_of (libEntries st' ! i) = chunk_of (es ! k) \<and> id_of (libEntries st' ! i) = x"
    and dist: "distinct (map chunk_of es)"
  shows "reconciled es (Suc k) st'"
proof -
  from inv have l: "length (classEntries st) = length es"
    and d: "drop k (classEntries st) = drop k es"
    and c: "map chunk_of (classEntries st) = map chunk_of es"
    and a: "list_all entry_ok (classEntries st)"
    and r: "\<And>j. j < k \<Longrightarrow> \<exists>i<length (libEntries st).
             chunk_of (libEntries st ! i) = chunk_of (es ! j)
             \<and> id_of (libEntries st ! i) = id_of (classEntries st ! j)"
    unfolding reconciled_def by blast+
  have "drop k (classEntries st) ! 0 = drop k es ! 0"
    by (simp only: d)
  with k l have u: "classEntries st ! k = es ! k"
    by simp
  from a k l have "entry_ok (classEntries st ! k)"
    by (simp add: list_all_length)
  with u have uok: "entry_ok (es ! k)" by simp
  from entry_ok_obj[OF uok] obtain ukvs where uo: "es ! k = JObj ukvs" by blast
  have idx: "id_of (set_prop ''id'' (JStr x) (es ! k)) = x"
    by (simp add: uo id_of_update_id)
  have 1: "length (classEntries st') = length es"
    by (simp add: ces l)
  have "drop (Suc k) (classEntries st) = drop 1 (drop k (classEntries st))"
    by simp
  also have "\<dots> = drop 1 (drop k es)" by (simp only: d)
  also have "\<dots> = drop (Suc k) es" by simp
  finally have 2: "drop (Suc k) (classEntries st') = drop (Suc k) es"
    by (simp add: ces)
  have 3: "map chunk_of (classEntries st') = map chunk_of es"
  proof (rule nth_equalityI)
    show "length (map chunk_of (classEntries st')) = length (map chunk_of es)"
      by (simp add: 1)
  next
    fix j assume "j < length (map chunk_of (classEntries st'))"
    then have j: "j < length es" by (simp add: 1)
    have "map chunk_of (classEntries st) ! j = map chunk_of es ! j"
      by (simp only: c)
    with j l have "chunk_of (classEntries st ! j) = chunk_of (es ! j)"
      by simp
    then show "map chunk_of (classEntries st') ! j = map chunk_of es ! j"
      using j l u by (cases "j = k") (simp_all add: ces chunk_of_set_prop)
  qed
  have 4: "list_all entry_ok (classEntries st')"
    unfolding ces list_all_iff
    using a entry_ok_set_id[OF uok] set_update_subset_insert[of "classEntries st" k]
    by (auto simp: list_all_iff)
  have 5: "\<exists>i<length (libEntries st').
             chunk_of (libEntries st' ! i) = chunk_of (es ! j)
             \<and> id_of (libEntries st' ! i) = id_of (classEntries st' ! j)"
    if j: "j < Suc k" for j
  proof (cases "j = k")
    case True
    with new idx k l show ?thesis by (simp add: ces)
  next
    case False
    with j have jk: "j < k" by simp
    from r[OF jk] obtain i where i: "i < length (libEntries st)"
      "chunk_of (libEntries st ! i) = chunk_of (es ! j)"
      "id_of (libEntries st ! i) = id_of (classEntries st ! j)" by blast
    from dist jk k have "chunk_of (es ! j) \<noteq> chunk_of (es ! k)"
      by (auto simp: distinct_conv_nth)
    with keep[OF i(1)] i have "chunk_of (libEntries st' ! i) = chunk_of (es ! j)"
      "id_of (libEntries st' ! i) = id_of (classEntries st ! j)" by simp_all
    with i(1) len False show ?thesis
      by (intro exI[of _ i]) (simp add: ces)
  qed
  show ?thesis
    unfolding reconciled_def using ok' 1 2 3 4 5 by blast
qed


lemma reconciled_entry:
  assumes "reconciled es k st" "k < length es"
  shows "entry_ok (es ! k)"
proof -
  from assms(1) have l: "length (classEntries st) = length es"
    and d: "drop k (classEntries st) = drop k es"
    and a: "list_all entry_ok (classEntries st)"
    unfolding reconciled_def by blast+
  have "drop k (classEntries st) ! 0 = drop k es ! 0" by (simp only: d)
  with assms(2) l have "classEntries st ! k = es ! k" by simp
  moreover from a assms(2) l have "entry_ok (classEntries st ! k)"
    by (simp add: list_all_length)
  ultimately show ?thesis by simp
qed

lemma reconciled_step:
  assumes inv: "reconciled es k st" and k: "k < length es"
    and dist: "distinct (map chunk_of es)"
    and s: "step cfg h d k (es ! k) st = Inr st'"
  shows "reconciled es (Suc k) st'"
proof -
  let ?u = "es ! k"
  from inv have ok: "libMap_ok st" unfolding reconciled_def by blast
  note ok' = libMap_ok_step[OF ok s]
  note uok = reconciled_entry[OF inv k]
  from entry_ok_obj[OF uok] obtain ukvs where uo: "?u = JObj ukvs" by blast
  note uc = entry_ok_chunk[OF uok]
  show ?thesis
  proof (cases rule: step_cases[where st = st and u = ?u and cfg = cfg and h = h and d = d])
    case conflict
    with s show ?thesis by (simp add: step_conflict)
  next
    case (hit i l)
    from inLib_ofD[OF ok hit(1)] have i: "i < length (libEntries st)"
      and l: "l = libEntries st ! i" and cl: "chunk_of l = chunk_of ?u" by blast+
    let ?l' = "set_prop ''variants'' (JArr (union_variants (variants_of l) (variants_of ?u))) l"
    from s hit have ces: "classEntries st' = (classEntries st)[k := set_prop ''id'' (JStr (id_of l)) ?u]"
      and les: "libEntries st' = (libEntries st)[i := ?l']"
      by (auto simp: step_hit)
    show ?thesis
    proof (rule reconciled_next[OF inv k ok' ces _ _ _ dist])
      show "length (libEntries st) \<le> length (libEntries st')" by (simp add: les)
    next
      fix j assume "j < length (libEntries st)"
      then show "chunk_of (libEntries st' ! j) = chunk_of (libEntries st ! j)
        \<and> (chunk_of (libEntries st ! j) \<noteq> chunk_of ?u \<longrightarrow>
             id_of (libEntries st' ! j) = id_of (libEntries st ! j))"
        using l by (cases "j = i") (simp_all add: les chunk_of_set_prop id_of_set_prop)
    next
      show "\<exists>j<length (libEntries st').
        chunk_of (libEntries st' ! j) = chunk_of ?u \<and> id_of (libEntries st' ! j) = id_of l"
        using i cl by (intro exI[of _ i]) (simp add: les chunk_of_set_prop id_of_set_prop)
    qed
  next
    case (failed err cs)
    with s show ?thesis by (simp add: step_miss_error)
  next
    case (new c cs)
    let ?e = "fill_libEntry c ?u (new_libEntry ?u)"
    obtain nkvs where nl: "new_libEntry ?u = JObj nkvs" by (simp add: new_libEntry_def)
    have e: "chunk_of ?e = chunk_of ?u" "id_of ?e = c"
      using id_of_fill_libEntry[of c ?u nkvs]
      by (simp_all add: chunk_of_fill_libEntry nl[symmetric])
    from s new have ces: "classEntries st' = (classEntries st)[k := set_prop ''id'' (JStr c) ?u]"
      and les: "libEntries st' = libEntries st @ [?e]"
      by (auto simp: step_miss_new)
    show ?thesis
    proof (rule reconciled_next[OF inv k ok' ces _ _ _ dist])
      show "length (libEntries st) \<le> length (libEntries st')" by (simp add: les)
    next
      fix j assume "j < length (libEntries st)"
      then show "chunk_of (libEntries st' ! j) = chunk_of (libEntries st ! j)
        \<and> (chunk_of (libEntries st ! j) \<noteq> chunk_of ?u \<longrightarrow>
             id_of (libEntries st' ! j) = id_of (libEntries st ! j))"
        by (simp add: les nth_append)
    next
      show "\<exists>j<length (libEntries st').
        chunk_of (libEntries st' ! j) = chunk_of ?u \<and> id_of (libEntries st' ! j) = c"
        using e by (intro exI[of _ "length (libEntries st)"]) (simp add: les)
    qed
  next
    case (old i l c cs)
    from inLib_ofD[OF ok old(1)] have i: "i < length (libEntries st)"
      and l: "l = libEntries st ! i" and cl: "chunk_of l = chunk_of ?u" by blast+
    from cl uc chunk_of_obj[of l] obtain lkvs where lo: "l = JObj lkvs" by auto
    let ?e = "fill_libEntry c ?u l"
    have e: "chunk_of ?e = chunk_of ?u" "id_of ?e = c"
      using id_of_fill_libEntry[of c ?u lkvs] cl
      by (simp_all add: chunk_of_fill_libEntry lo[symmetric])
    from s old have ces: "classEntries st' = (classEntries st)[k := set_prop ''id'' (JStr c) ?u]"
      and les: "libEntries st' = (libEntries st)[i := ?e]"
      by (auto simp: step_miss_old)
    show ?thesis
    proof (rule reconciled_next[OF inv k ok' ces _ _ _ dist])
      show "length (libEntries st) \<le> length (libEntries st')" by (simp add: les)
    next
      fix j assume "j < length (libEntries st)"
      then show "chunk_of (libEntries st' ! j) = chunk_of (libEntries st ! j)
        \<and> (chunk_of (libEntries st ! j) \<noteq> chunk_of ?u \<longrightarrow>
             id_of (libEntries st' ! j) = id_of (libEntries st ! j))"
        using l cl e by (cases "j = i") (simp_all add: les)
    next
      show "\<exists>j<length (libEntries st').
        chunk_of (libEntries st' ! j) = chunk_of ?u \<and> id_of (libEntries st' ! j) = c"
        using i e by (intro exI[of _ i]) (simp add: les)
    qed
  qed
qed

lemma reconciled_loop:
  assumes dist: "distinct (map chunk_of es)"
  shows "reconciled es k st \<Longrightarrow> k \<le> length es \<Longrightarrow>
         loop cfg h d k (drop k es) st = Inr st' \<Longrightarrow> reconciled es (length es) st'"
proof (induction "length es - k" arbitrary: k st)
  case 0
  then show ?case by simp
next
  case (Suc n)
  then have k: "k < length es" by simp
  then have dr: "drop k es = es ! k # drop (Suc k) es"
    by (simp add: Cons_nth_drop_Suc)
  from Suc.prems(3) obtain st1 where 1: "step cfg h d k (es ! k) st = Inr st1"
    and 2: "loop cfg h d (Suc k) (drop (Suc k) es) st1 = Inr st'"
    unfolding dr by (auto split: sum.splits)
  from Suc.hyps(2) have n: "n = length es - Suc k" by simp
  from Suc.hyps(1)[OF n reconciled_step[OF Suc.prems(1) k dist 1] _ 2] k
  show ?case by simp
qed


lemma indexByChunk_from_Some:
  "map_of m c \<noteq> None \<or> c \<in> chunk_of ` set es \<Longrightarrow> map_of (indexByChunk_from i es m) c \<noteq> None"
  by (induction es arbitrary: i m) (auto simp: update_conv')

lemma indexByChunk_Some:
  "c \<in> chunk_of ` set es \<Longrightarrow> \<exists>i. map_of (indexByChunk es) c = Some i"
  using indexByChunk_from_Some[of "[]" c es 0] by (auto simp: indexByChunk_def)

lemma map_update_same: "f y = f (xs ! i) \<Longrightarrow> map f (xs[i := y]) = map f xs"
  by (induction xs arbitrary: i) (auto split: nat.splits)

text \<open>A unit is settled when the registry has an entry under its chunk with its non-blank id.\<close>

lemma step_settled:
  assumes ok: "libMap_ok st"
    and u: "entry_ok u" "trim (id_of u) \<noteq> []"
    and m: "map_of (libMap st) (chunk_of u) = Some i" "id_of (libEntries st ! i) = id_of u"
    and k: "classEntries st ! k = u"
  shows "\<exists>st'. step cfg h d k u st = Inr st'
     \<and> classEntries st' = classEntries st \<and> calls st' = calls st \<and> created st' = created st
     \<and> class_file st' = class_file st \<and> lib_file st' = lib_file st
     \<and> classDoc st' = classDoc st \<and> lib st' = lib st
     \<and> libMap st' = libMap st
     \<and> map id_of (libEntries st') = map id_of (libEntries st)
     \<and> map chunk_of (libEntries st') = map chunk_of (libEntries st)
     \<and> skippedExisting st' = skippedExisting st @ [chunk_of u]"
proof -
  let ?l = "libEntries st ! i"
  let ?l' = "set_prop ''variants'' (JArr (union_variants (variants_of ?l) (variants_of u))) ?l"
  from m(1) have il: "inLib_of st u = Some (i, ?l)" by (simp add: inLib_of_def)
  from libMap_okD[OF ok m(1)] have i: "i < length (libEntries st)" by blast
  from u(2) have "id_of u \<noteq> []" by (rule trim_nonempty)
  with u(2) m(2) have nc: "\<not> id_conflict (Some (i, ?l)) u" and hit: "has_id (Some (i, ?l))"
    by (simp_all add: id_conflict_def has_id_def)
  have "(classEntries st)[k := u] = classEntries st"
    unfolding k[symmetric] by (rule list_update_id)
  then have same: "(classEntries st)[k := set_prop ''id'' (JStr (id_of ?l)) u] = classEntries st"
    by (simp add: m(2) set_id_same[OF u(1)])
  have ids: "map id_of ((libEntries st)[i := ?l']) = map id_of (libEntries st)"
    by (rule map_update_same) (simp add: id_of_set_prop)
  have chunks: "map chunk_of ((libEntries st)[i := ?l']) = map chunk_of (libEntries st)"
    by (rule map_update_same) (simp add: chunk_of_set_prop)
  show ?thesis
    using step_hit[OF il nc hit, of cfg h d k] same ids chunks by simp
qed

lemma loop_settled:
  "libMap_ok st \<Longrightarrow>
   \<forall>u\<in>set us. entry_ok u \<and> trim (id_of u) \<noteq> []
      \<and> (\<exists>i. map_of (libMap st) (chunk_of u) = Some i \<and> id_of (libEntries st ! i) = id_of u) \<Longrightarrow>
   drop k (classEntries st) = us \<Longrightarrow>
   \<exists>st'. loop cfg h d k us st = Inr st'
     \<and> classEntries st' = classEntries st \<and> calls st' = calls st \<and> created st' = created st
     \<and> class_file st' = class_file st \<and> lib_file st' = lib_file st
     \<and> classDoc st' = classDoc st \<and> lib st' = lib st
     \<and> map id_of (libEntries st') = map id_of (libEntries st)
     \<and> map chunk_of (libEntries st') = map chunk_of (libEntries st)
     \<and> skippedExisting st' = skippedExisting st @ map chunk_of us"
proof (induction us arbitrary: k st)
  case Nil
  then show ?case by simp
next
  case (Cons u us)
  from Cons.prems(3) have k: "classEntries st ! k = u" and kl: "k < length (classEntries st)"
    and dr: "drop (Suc k) (classEntries st) = us"
    by (metis nth_via_drop, metis drop_eq_Nil leI list.distinct(1), metis drop_Suc tl_drop list.sel(3))
  from Cons.prems(2) obtain i where u: "entry_ok u" "trim (id_of u) \<noteq> []"
    and m: "map_of (libMap st) (chunk_of u) = Some i" "id_of (libEntries st ! i) = id_of u"
    by auto
  from step_settled[OF Cons.prems(1) u m k, of cfg h d]
  obtain st1 where s: "step cfg h d k u st = Inr st1"
    and e: "classEntries st1 = classEntries st" "calls st1 = calls st" "created st1 = created st"
      "class_file st1 = class_file st" "lib_file st1 = lib_file st"
      "classDoc st1 = classDoc st" "lib st1 = lib st" "libMap st1 = libMap st"
      "map id_of (libEntries st1) = map id_of (libEntries st)"
      "map chunk_of (libEntries st1) = map chunk_of (libEntries st)"
      "skippedExisting st1 = skippedExisting st @ [chunk_of u]"
    by blast
  have ok1: "libMap_ok st1" by (rule libMap_ok_step[OF Cons.prems(1) s])
  have idn: "id_of (libEntries st1 ! j) = id_of (libEntries st ! j)"
    if "j < length (libEntries st)" for j
  proof -
    have "map id_of (libEntries st1) ! j = map id_of (libEntries st) ! j" by (simp only: e)
    moreover have "length (libEntries st1) = length (libEntries st)"
      using e(9) by (metis length_map)
    ultimately show ?thesis using that by simp
  qed
  have p2: "\<forall>v\<in>set us. entry_ok v \<and> trim (id_of v) \<noteq> []
      \<and> (\<exists>j. map_of (libMap st1) (chunk_of v) = Some j \<and> id_of (libEntries st1 ! j) = id_of v)"
  proof
    fix v assume "v \<in> set us"
    with Cons.prems(2) obtain j where v: "entry_ok v" "trim (id_of v) \<noteq> []"
      "map_of (libMap st) (chunk_of v) = Some j" "id_of (libEntries st ! j) = id_of v"
      by auto
    from libMap_okD[OF Cons.prems(1) v(3)] have "j < length (libEntries st)" by blast
    from idn[OF this] v show "entry_ok v \<and> trim (id_of v) \<noteq> []
      \<and> (\<exists>j. map_of (libMap st1) (chunk_of v) = Some j \<and> id_of (libEntries st1 ! j) = id_of v)"
      by (simp add: e)
  qed
  from dr have p3: "drop (Suc k) (classEntries st1) = us" by (simp add: e)
  from Cons.IH[OF ok1 p2 p3]
  obtain st' where "loop cfg h d (Suc k) us st1 = Inr st'"
    "classEntries st' = classEntries st1" "calls st' = calls st1" "created st' = created st1"
    "class_file st' = class_file st1" "lib_file st' = lib_file st1"
    "classDoc st' = classDoc st1" "lib st' = lib st1"
    "map id_of (libEntries st') = map id_of (libEntries st1)"
    "map chunk_of (libEntries st') = map chunk_of (libEntries st1)"
    "skippedExisting st' = skippedExisting st1 @ map chunk_of us"
    by blast
  with s e show ?case by simp
qed

section \<open>A second run after a successful first run, the whole program\<close>

lemma validateLibrary_entries:
  assumes "validateLibrary (JObj kvs) = Inr (JObj kvs)" "field (JObj kvs) ''entries'' = Some (JArr es)"
  shows "validateLibraryEntries 0 [] es = Inr ()"
  using assms
  by (auto simp: validateLibrary_def isArray_def arr_of_def split: sum.splits if_splits)

lemma with_entries_obj: "\<exists>kvs'. with_entries (JObj kvs) es = JObj kvs'"
  by (simp add: with_entries_def)

lemma field_with_entries_entries: "field (with_entries (JObj kvs) es) ''entries'' = Some (JArr es)"
  by (simp add: with_entries_def update_conv')

lemma field_with_entries_other: "k \<noteq> ''entries'' \<Longrightarrow> field (with_entries doc es) k = field doc k"
  by (simp add: with_entries_def field_set_prop_other)

lemma with_entries_twice: "with_entries (with_entries doc es') es = with_entries doc es"
  by (cases doc) (simp_all add: with_entries_def)

lemma set_sort_entries: "set (sort_entries cmp es) = set es"
  by (metis mset_sort_entries set_mset_mset)

lemma finish_wet:
  "\<not> DRY_RUN cfg \<Longrightarrow>
   finish cfg h st = persist (st\<lparr>libEntries := sort_entries (localeCompare h) (libEntries st)\<rparr>)"
  by (simp add: finish_def Let_def)

lemma reconciled_init:
  "list_all entry_ok (arr_of (field doc ''entries'')) \<Longrightarrow>
   reconciled (arr_of (field doc ''entries'')) 0 (init_state w doc l cs)"
  by (simp add: reconciled_def libMap_ok_init)


lemma map_pair_zip: "map (\<lambda>x. (f x, g x)) xs = zip (map f xs) (map g xs)"
  by (induction xs) simp_all

lemma mset_map_sort_entries: "mset (map f (sort_entries cmp es)) = mset (map f es)"
  by (simp only: mset_map mset_sort_entries)

lemma main_second_run:
  assumes "validateClassDoc doc1 = Inr ()"
    and "loadLibrary (Some l1) = l1"
    and "resolve_deck cfg h (str_of (field doc1 ''class'') @ utf16 ''_V'') cs = (Inr d2, cs')"
    and "loop cfg h (deck_id d2) 0 (arr_of (field doc1 ''entries''))
           (init_state \<lparr>class_file = Some doc1, lib_file = Some l1, calls = cs\<rparr> doc1 l1 cs') = Inr st"
  shows "main cfg h \<lparr>class_file = Some doc1, lib_file = Some l1, calls = cs\<rparr> = Inr (finish cfg h st)"
  using assms by (simp add: main_def loadJson_def)

lemma settled_lookup:
  assumes dl: "distinct (map chunk_of es)"
    and l: "l \<in> set es" "chunk_of l = c"
  shows "\<exists>i. map_of (indexByChunk es) c = Some i \<and> es ! i = l"
proof -
  from l have "c \<in> chunk_of ` set es" by auto
  from indexByChunk_Some[OF this] obtain i where i: "map_of (indexByChunk es) c = Some i" by blast
  have "libMap_ok (init_state w (JObj []) (JObj [(''entries'', JArr es)]) [])" for w
    by (rule libMap_ok_init)
  from libMap_okD[OF this, of _ c i] i
  have i': "i < length es" "chunk_of (es ! i) = c"
    by (simp_all add: arr_of_def)
  then have "es ! i \<in> set es" by simp
  with dl l i'(2) have "es ! i = l"
    by (auto simp: distinct_map dest: inj_onD)
  with i show ?thesis by blast
qed


text \<open>
  X1. Idempotence where the code has it. Take a successful run outside dry-run mode
  such that the library it saved passes \<^verbatim>\<open>validateLibrary\<close> (no two of its chunks are
  equal after trimming), every class entry has a non-blank id afterwards (the service
  returned proper identifiers), and the service lists the deck of the class. A second
  run on the files and requests the first run left behind succeeds, sends
  \<^verbatim>\<open>GET /decks\<close> and nothing else, creates no card, skips every unit, leaves every class
  entry and the class file as they were, and leaves the registry with the same chunks
  and ids.
\<close>

theorem second_run_is_idle:
  assumes run1: "main cfg h w = Inr st1"
    and wet: "\<not> DRY_RUN cfg"
    and libok: "validateLibrary (with_entries (lib st1) (libEntries st1))
                 = Inr (with_entries (lib st1) (libEntries st1))"
    and ids: "\<forall>u\<in>set (classEntries st1). trim (id_of u) \<noteq> []"
    and decks: "decks_response h (calls st1) = Some ds"
    and deck: "find (\<lambda>d. deck_name d = str_of (field (classDoc st1) ''class'') @ utf16 ''_V'') ds = Some d2"
  shows "\<exists>st2. main cfg h (world_of st1) = Inr st2
     \<and> created st2 = 0
     \<and> calls st2 = calls st1 @ [GET_decks]
     \<and> classEntries st2 = classEntries st1
     \<and> class_file st2 = class_file st1
     \<and> skippedExisting st2 = map chunk_of (classEntries st1)
     \<and> mset (map (\<lambda>l. (chunk_of l, id_of l)) (libEntries st2))
         = mset (map (\<lambda>l. (chunk_of l, id_of l)) (libEntries st1))"
proof -
  from run1 obtain doc d cs st' where
    "class_file w = Some doc"
    and v: "validateClassDoc doc = Inr ()"
    and "resolve_deck cfg h (str_of (field doc ''class'') @ utf16 ''_V'') (calls w) = (Inr d, cs)"
    and l: "loop cfg h (deck_id d) 0 (arr_of (field doc ''entries''))
       (init_state w doc (loadLibrary (lib_file w)) cs) = Inr st'"
    and st1: "st1 = finish cfg h st'"
    by (rule main_success)
  let ?es = "arr_of (field doc ''entries'')"
  let ?L = "loadLibrary (lib_file w)"
  let ?ces = "classEntries st'"
  let ?sorted = "sort_entries (localeCompare h) (libEntries st')"
  let ?doc1 = "with_entries doc ?ces"
  let ?L1 = "with_entries ?L ?sorted"
  from v have cls: "truthy_o (field doc ''class'')" "is_string (field doc ''class'')"
    and okes: "list_all entry_ok ?es"
    and dt: "distinct (map (\<lambda>e. trim (chunk_of e)) ?es)"
    unfolding validateClassDoc_iff by blast+
  note dist = distinct_trim_chunks[OF dt]
  have "loop cfg h (deck_id d) 0 (drop 0 ?es) (init_state w doc ?L cs) = Inr st'"
    using l by simp
  from reconciled_loop[OF dist reconciled_init[OF okes] _ this]
  have rec: "reconciled ?es (length ?es) st'" by simp
  then have len: "length ?ces = length ?es"
    and chunks: "map chunk_of ?ces = map chunk_of ?es"
    and okces: "list_all entry_ok ?ces"
    and rel: "\<And>j. j < length ?es \<Longrightarrow> \<exists>i<length (libEntries st').
             chunk_of (libEntries st' ! i) = chunk_of (?es ! j)
             \<and> id_of (libEntries st' ! i) = id_of (?ces ! j)"
    unfolding reconciled_def by blast+
  from loop_docs[OF l] have docs: "lib st' = ?L" "classDoc st' = doc" by simp_all
  from validateClassDoc_obj[OF v] obtain dkvs where dk: "doc = JObj dkvs" by blast
  from loadLibrary_obj obtain lkvs where lk: "?L = JObj lkvs" by blast
  have f1: "classEntries st1 = ?ces" "libEntries st1 = ?sorted" "classDoc st1 = doc" "lib st1 = ?L"
    "calls st1 = calls st'" "class_file st1 = Some ?doc1" "lib_file st1 = Some ?L1"
    by (simp_all add: st1 finish_wet[OF wet] docs)
  have w1: "world_of st1 = \<lparr>class_file = Some ?doc1, lib_file = Some ?L1, calls = calls st1\<rparr>"
    by (simp add: world_of_def f1)
  have e1: "arr_of (field ?doc1 ''entries'') = ?ces" "arr_of (field ?L1 ''entries'') = ?sorted"
    by (simp_all add: dk lk entries_with_entries)
  have c1: "field ?doc1 ''class'' = field doc ''class''"
    by (simp add: field_with_entries_other)
  have "map (\<lambda>e. trim (chunk_of e)) ?ces = map trim (map chunk_of ?ces)" by simp
  also have "\<dots> = map trim (map chunk_of ?es)" by (simp only: chunks)
  also have "\<dots> = map (\<lambda>e. trim (chunk_of e)) ?es" by simp
  finally have dt1: "distinct (map (\<lambda>e. trim (chunk_of e)) ?ces)" using dt by simp
  have v1: "validateClassDoc ?doc1 = Inr ()"
    unfolding validateClassDoc_iff e1 c1
    using cls okces dt1 by (simp add: dk field_with_entries_entries isArray_def)
  from libok have lv: "validateLibrary ?L1 = Inr ?L1" by (simp add: f1)
  then have ll: "loadLibrary (Some ?L1) = ?L1"
    by (simp add: loadLibrary_def loadJson_def)
  from with_entries_obj obtain lkvs1 where lk1: "?L1 = JObj lkvs1" unfolding lk by blast
  have "field ?L1 ''entries'' = Some (JArr ?sorted)"
    by (simp add: lk field_with_entries_entries)
  from validateLibrary_entries[OF lv[unfolded lk1] this[unfolded lk1]]
  have "validateLibraryEntries 0 [] ?sorted = Inr ()" .
  from validateLibraryEntries_distinct[OF this]
  have dl: "distinct (map chunk_of ?sorted)" by (simp add: distinct_trim_chunks)
  have rd: "resolve_deck cfg h (str_of (field ?doc1 ''class'') @ utf16 ''_V'') (calls st1)
            = (Inr d2, calls st1 @ [GET_decks])"
    using decks deck by (simp add: resolve_deck_def findDeckByName_def c1 f1)
  let ?S2 = "init_state \<lparr>class_file = Some ?doc1, lib_file = Some ?L1, calls = calls st1\<rparr>
               ?doc1 ?L1 (calls st1 @ [GET_decks])"
  have settled: "\<forall>u\<in>set (arr_of (field ?doc1 ''entries'')). entry_ok u \<and> trim (id_of u) \<noteq> []
      \<and> (\<exists>i. map_of (libMap ?S2) (chunk_of u) = Some i \<and> id_of (libEntries ?S2 ! i) = id_of u)"
    unfolding e1
  proof
    fix u assume u: "u \<in> set ?ces"
    then obtain j where j: "j < length ?ces" "?ces ! j = u" by (auto simp: in_set_conv_nth)
    from okces u have uok: "entry_ok u" by (simp add: list_all_iff)
    from ids u have uid: "trim (id_of u) \<noteq> []" by (simp add: f1)
    have "map chunk_of ?ces ! j = map chunk_of ?es ! j" by (simp only: chunks)
    with j len have cj: "chunk_of (?es ! j) = chunk_of u" by simp
    from rel[of j] j len cj obtain i where i: "i < length (libEntries st')"
      "chunk_of (libEntries st' ! i) = chunk_of u" "id_of (libEntries st' ! i) = id_of u"
      by auto
    then have "libEntries st' ! i \<in> set ?sorted" by (simp add: set_sort_entries)
    from settled_lookup[OF dl this i(2)] i(3)
    have "\<exists>i. map_of (indexByChunk ?sorted) (chunk_of u) = Some i \<and> id_of (?sorted ! i) = id_of u"
      by auto
    with uok uid show "entry_ok u \<and> trim (id_of u) \<noteq> []
      \<and> (\<exists>i. map_of (libMap ?S2) (chunk_of u) = Some i \<and> id_of (libEntries ?S2 ! i) = id_of u)"
      by (simp add: e1)
  qed
  have dr: "drop 0 (classEntries ?S2) = arr_of (field ?doc1 ''entries'')" by simp
  from loop_settled[OF libMap_ok_init settled dr, of cfg h "deck_id d2"]
  obtain st2' where l2: "loop cfg h (deck_id d2) 0 (arr_of (field ?doc1 ''entries'')) ?S2 = Inr st2'"
    and g: "classEntries st2' = classEntries ?S2" "calls st2' = calls ?S2"
      "created st2' = created ?S2" "classDoc st2' = classDoc ?S2"
      "map id_of (libEntries st2') = map id_of (libEntries ?S2)"
      "map chunk_of (libEntries st2') = map chunk_of (libEntries ?S2)"
      "skippedExisting st2' = skippedExisting ?S2 @ map chunk_of (arr_of (field ?doc1 ''entries''))"
    by blast
  have m2: "main cfg h (world_of st1) = Inr (finish cfg h st2')"
    unfolding w1 by (rule main_second_run[OF v1 ll rd l2])
  have pairs: "map (\<lambda>l. (chunk_of l, id_of l)) (libEntries st2')
               = map (\<lambda>l. (chunk_of l, id_of l)) ?sorted"
    unfolding map_pair_zip g by (simp add: e1)
  have r: "created (finish cfg h st2') = 0"
    "calls (finish cfg h st2') = calls st1 @ [GET_decks]"
    "classEntries (finish cfg h st2') = classEntries st1"
    "class_file (finish cfg h st2') = class_file st1"
    "skippedExisting (finish cfg h st2') = map chunk_of (classEntries st1)"
    by (simp_all add: finish_wet[OF wet] g e1 f1 with_entries_twice)
  have "mset (map (\<lambda>l. (chunk_of l, id_of l)) (libEntries (finish cfg h st2')))
        = mset (map (\<lambda>l. (chunk_of l, id_of l)) (libEntries st2'))"
    by (simp only: libEntries_finish mset_map_sort_entries)
  also have "\<dots> = mset (map (\<lambda>l. (chunk_of l, id_of l)) (libEntries st1))"
    by (simp only: pairs f1)
  finally have "mset (map (\<lambda>l. (chunk_of l, id_of l)) (libEntries (finish cfg h st2')))
        = mset (map (\<lambda>l. (chunk_of l, id_of l)) (libEntries st1))" .
  with m2 r show ?thesis by blast
qed


theorem second_run_is_idle_witness:
  "\<exists>st1 st2. main demo_config demo_host scenario_A = Inr st1
     \<and> created st1 = 1
     \<and> classEntries st1 = [unit_json ''casa'' ''card++'' [jstr ''casa'']]
     \<and> main demo_config demo_host (world_of st1) = Inr st2
     \<and> created st2 = 0
     \<and> calls st2 = calls st1 @ [GET_decks]
     \<and> classEntries st2 = classEntries st1
     \<and> skippedExisting st2 = [utf16 ''casa'']"
proof -
  let ?d = "\<lparr>deck_id = utf16 ''deck_001_V'', deck_name = utf16 ''001_V''\<rparr>"
  have "case main demo_config demo_host scenario_A of
          Inl failure \<Rightarrow> False
        | Inr st1 \<Rightarrow>
            created st1 = 1
            \<and> classEntries st1 = [unit_json ''casa'' ''card++'' [jstr ''casa'']]
            \<and> validateLibrary (with_entries (lib st1) (libEntries st1))
                = Inr (with_entries (lib st1) (libEntries st1))
            \<and> (\<forall>u\<in>set (classEntries st1). trim (id_of u) \<noteq> [])
            \<and> decks_response demo_host (calls st1) = Some [?d]
            \<and> find (\<lambda>d. deck_name d = str_of (field (classDoc st1) ''class'') @ utf16 ''_V'') [?d] = Some ?d
            \<and> map chunk_of (classEntries st1) = [utf16 ''casa'']"
    by code_simp
  then obtain st1 where 1: "main demo_config demo_host scenario_A = Inr st1"
    and c: "created st1 = 1" "classEntries st1 = [unit_json ''casa'' ''card++'' [jstr ''casa'']]"
    and 3: "validateLibrary (with_entries (lib st1) (libEntries st1))
                = Inr (with_entries (lib st1) (libEntries st1))"
    and 4: "\<forall>u\<in>set (classEntries st1). trim (id_of u) \<noteq> []"
    and 5: "decks_response demo_host (calls st1) = Some [?d]"
    and 6: "find (\<lambda>d. deck_name d = str_of (field (classDoc st1) ''class'') @ utf16 ''_V'') [?d] = Some ?d"
    and 7: "map chunk_of (classEntries st1) = [utf16 ''casa'']"
    by (cases "main demo_config demo_host scenario_A") auto
  have 2: "\<not> DRY_RUN demo_config" by code_simp
  from second_run_is_idle[OF 1 2 3 4 5 6]
  obtain st2 where r: "main demo_config demo_host (world_of st1) = Inr st2"
    "created st2 = 0" "calls st2 = calls st1 @ [GET_decks]"
    "classEntries st2 = classEntries st1"
    "skippedExisting st2 = map chunk_of (classEntries st1)"
    by blast
  have "main demo_config demo_host scenario_A = Inr st1
     \<and> created st1 = 1
     \<and> classEntries st1 = [unit_json ''casa'' ''card++'' [jstr ''casa'']]
     \<and> main demo_config demo_host (world_of st1) = Inr st2
     \<and> created st2 = 0
     \<and> calls st2 = calls st1 @ [GET_decks]
     \<and> classEntries st2 = classEntries st1
     \<and> skippedExisting st2 = [utf16 ''casa'']"
    using 1 c r unfolding 7 by (intro conjI) assumption+
  then show ?thesis by - (rule exI, rule exI, assumption)
qed

end
